theory Spec2Isabelle
  imports Main
begin

section \<open>Insertion-ordered maps\<close>

text \<open>
  The caches of the extension are JavaScript \<open>Map\<close> objects. A \<open>Map\<close> iterates its
  entries in the order in which the keys were first inserted; \<open>set\<close> on a key that is
  already present replaces the value and leaves the position alone; \<open>delete\<close> removes the
  entry. The model is an association list in iteration order.
\<close>

type_synonym ('k, 'v) jsmap = "('k \<times> 'v) list"

fun Map_get :: "('k, 'v) jsmap \<Rightarrow> 'k \<Rightarrow> 'v option" where
  "Map_get [] k = None"
| "Map_get ((k', v') # m) k = (if k' = k then Some v' else Map_get m k)"

fun Map_set :: "'k \<Rightarrow> 'v \<Rightarrow> ('k, 'v) jsmap \<Rightarrow> ('k, 'v) jsmap" where
  "Map_set k v [] = [(k, v)]"
| "Map_set k v ((k', v') # m) = (if k' = k then (k, v) # m else (k', v') # Map_set k v m)"

fun Map_delete :: "'k \<Rightarrow> ('k, 'v) jsmap \<Rightarrow> ('k, 'v) jsmap" where
  "Map_delete k [] = []"
| "Map_delete k ((k', v') # m) = (if k' = k then m else (k', v') # Map_delete k m)"

definition Map_keys :: "('k, 'v) jsmap \<Rightarrow> 'k list" where
  "Map_keys m = map fst m"

section \<open>Paths and cache entries\<close>

text \<open>
  An absolute, normalised path is kept as the list of its segments; the segments of
  \<open>/p/src/a.ts\<close> are \<open>[''p'', ''src'', ''a.ts'']\<close>.
\<close>

type_synonym path = "string list"

record BinaryCacheEntry =
  isBinary_of :: bool
  bmtime :: int

record TokenCacheEntry =
  tokens :: nat
  tmtime :: int
  tsize :: nat

definition MAX_BINARY_CACHE_SIZE :: nat where
  "MAX_BINARY_CACHE_SIZE = 5000"

definition MAX_CACHE_SIZE :: nat where
  "MAX_CACHE_SIZE = 5000"

text \<open>
  \<open>evictOldestBinaryCacheEntries\<close> (utils.ts) and \<open>evictOldestCacheEntries\<close>
  (tokenCounter.ts): when the map is over capacity, the first \<open>size - MAX\<close> entries of a
  snapshot of the map are deleted by key, one after another.
\<close>

definition evictOldestBinaryCacheEntries ::
    "(path, BinaryCacheEntry) jsmap \<Rightarrow> (path, BinaryCacheEntry) jsmap" where
  "evictOldestBinaryCacheEntries isBinaryCache =
     (if length isBinaryCache > MAX_BINARY_CACHE_SIZE then
        (let entries = isBinaryCache;
             toDelete = take (length isBinaryCache - MAX_BINARY_CACHE_SIZE) entries
         in fold (\<lambda>(key, _). Map_delete key) toDelete isBinaryCache)
      else isBinaryCache)"

definition evictOldestCacheEntries ::
    "(path, TokenCacheEntry) jsmap \<Rightarrow> (path, TokenCacheEntry) jsmap" where
  "evictOldestCacheEntries tokenCache =
     (if length tokenCache > MAX_CACHE_SIZE then
        (let entries = tokenCache;
             toDelete = take (length tokenCache - MAX_CACHE_SIZE) entries
         in fold (\<lambda>(key, _). Map_delete key) toDelete tokenCache)
      else tokenCache)"

text \<open>Inserting a run of keys the way both caches do it: \<open>set\<close>, then evict.\<close>

definition binaryCacheInsertAll ::
    "(path \<Rightarrow> BinaryCacheEntry) \<Rightarrow> path list \<Rightarrow> (path, BinaryCacheEntry) jsmap
      \<Rightarrow> (path, BinaryCacheEntry) jsmap" where
  "binaryCacheInsertAll v ks c =
     fold (\<lambda>k c. evictOldestBinaryCacheEntries (Map_set k (v k) c)) ks c"

definition tokenCacheInsertAll ::
    "(path \<Rightarrow> TokenCacheEntry) \<Rightarrow> path list \<Rightarrow> (path, TokenCacheEntry) jsmap
      \<Rightarrow> (path, TokenCacheEntry) jsmap" where
  "tokenCacheInsertAll v ks c =
     fold (\<lambda>k c. evictOldestCacheEntries (Map_set k (v k) c)) ks c"

section \<open>The concurrency limiter\<close>

text \<open>
  \<open>createLimit(concurrency)\<close> (utils.ts, and the same text in tokenCounter.ts) closes over
  a queue of \<open>run\<close> closures and the counter \<open>running\<close>. JavaScript runs one piece of
  code at a time, so the limiter is a state machine with two kinds of events: a call
  \<open>limit(fn)\<close>, and the settling of the promise of a task that is running, fulfilled
  (\<open>True\<close>) or rejected (\<open>False\<close>). A task stands for its \<open>fn\<close> and its \<open>run\<close> closure.
  The fields \<open>active\<close>, \<open>started\<close> and \<open>settled\<close> are history: the tasks between their
  \<open>running++\<close> and their \<open>running--\<close>, the tasks in the order in which \<open>run\<close> was
  entered, and the \<open>resolve\<close>/\<open>reject\<close> calls made.
\<close>

record 'a limiter =
  queue :: "'a list"
  running :: nat
  active :: "'a list"
  started :: "'a list"
  settled :: "('a \<times> bool) list"

definition createLimit :: "'a limiter" where
  "createLimit = \<lparr>queue = [], running = 0, active = [], started = [], settled = []\<rparr>"

text \<open>Entering \<open>run\<close>: \<open>running++\<close>, then \<open>fn()\<close> is called and awaited.\<close>

definition run :: "'a \<Rightarrow> 'a limiter \<Rightarrow> 'a limiter" where
  "run t s = s\<lparr>running := running s + 1, active := active s @ [t], started := started s @ [t]\<rparr>"

text \<open>The body of \<open>limit(fn)\<close>.\<close>

definition limit :: "nat \<Rightarrow> 'a \<Rightarrow> 'a limiter \<Rightarrow> 'a limiter" where
  "limit concurrency t s =
     (if running s < concurrency then run t s else s\<lparr>queue := queue s @ [t]\<rparr>)"

text \<open>
  The rest of \<open>run\<close> once \<open>await fn()\<close> is over: \<open>resolve\<close> or \<open>reject\<close>, then the
  \<open>finally\<close> block, which decrements and starts the head of the queue.
\<close>

definition finish :: "nat \<Rightarrow> 'a \<Rightarrow> bool \<Rightarrow> 'a limiter \<Rightarrow> 'a limiter" where
  "finish concurrency t ok s =
     (let s1 = s\<lparr>settled := settled s @ [(t, ok)]\<rparr>;
          s2 = s1\<lparr>running := running s1 - 1, active := remove1 t (active s1)\<rparr>
      in if length (queue s2) > 0 \<and> running s2 < concurrency
         then (let next = hd (queue s2) in run next (s2\<lparr>queue := tl (queue s2)\<rparr>))
         else s2)"

datatype 'a event = Submit 'a | Settle 'a bool

text \<open>Only a task that is running can settle; any other \<open>Settle\<close> event is no event.\<close>

fun step :: "nat \<Rightarrow> 'a event \<Rightarrow> 'a limiter \<Rightarrow> 'a limiter" where
  "step concurrency (Submit t) s = limit concurrency t s"
| "step concurrency (Settle t ok) s =
     (if t \<in> set (active s) then finish concurrency t ok s else s)"

definition exec :: "nat \<Rightarrow> 'a event list \<Rightarrow> 'a limiter" where
  "exec concurrency evs = fold (step concurrency) evs createLimit"

fun submitted :: "'a event list \<Rightarrow> 'a list" where
  "submitted [] = []"
| "submitted (Submit t # evs) = t # submitted evs"
| "submitted (Settle t ok # evs) = submitted evs"

definition limiter_inv :: "nat \<Rightarrow> 'a limiter \<Rightarrow> bool" where
  "limiter_inv concurrency s \<longleftrightarrow>
     running s = length (active s) \<and> running s \<le> concurrency
     \<and> (queue s \<noteq> [] \<longrightarrow> running s = concurrency)"

section \<open>The filesystem surface and the state of the extension\<close>

text \<open>
  Anything thrown by the filesystem API or by a library call is an \<open>error\<close> value;
  a computation that may throw returns \<open>error + 'a\<close> with the state it leaves behind.
\<close>

datatype error = Error string

record FileStat =
  ftype :: nat
  mtime :: int
  fsize :: nat

definition FileType_File :: nat where "FileType_File = 1"

definition FileType_Directory :: nat where "FileType_Directory = 2"

definition FileType_SymbolicLink :: nat where "FileType_SymbolicLink = 64"

text \<open>One result of \<open>reader.read()\<close> on a stream: it throws, or yields \<open>{value, done}\<close>.\<close>

datatype read_result = ReadThrows error | Chunk "nat list option" bool

datatype fs_op =
    Stat path | ReadDirectory path | ReadFile path | ReadFileStream path | StreamRead path

text \<open>
  The world outside the extension. Every awaited filesystem call is answered by an
  oracle that also sees how many filesystem calls the extension has made so far, so the
  filesystem may change between any two calls and any call may fail. \<open>readFileStream\<close>
  is \<open>None\<close> when the API object has no such function. \<open>encode_length\<close> stands for
  \<open>encode(Buffer.from(bytes).toString("utf8")).length\<close> of the tokenizer library and
  \<open>utf8_decode\<close> for the text decoder; \<open>MAX_PREVIEW_BYTES\<close> is the constant of
  constants.ts.
\<close>

record world =
  fs_stat :: "nat \<Rightarrow> path \<Rightarrow> error + FileStat"
  fs_readDirectory :: "nat \<Rightarrow> path \<Rightarrow> error + (string \<times> nat) list"
  fs_readFile :: "nat \<Rightarrow> path \<Rightarrow> error + nat list"
  fs_readFileStream :: "(nat \<Rightarrow> path \<Rightarrow> error + read_result list) option"
  encode_length :: "nat list \<Rightarrow> error + nat"
  utf8_decode :: "nat list \<Rightarrow> string"
  MAX_PREVIEW_BYTES :: nat

datatype diagnostic =
    Warn_collectFiles_hit_cap int
  | Error_processing_file path error
  | Log_countTokens_start nat
  | Log_countTokens_done nat
  | Log_getIgnoreParser_cache_hit path
  | Log_getIgnoreParser_loaded path
  | Log_getIgnoreParser_none path

text \<open>
  A matcher of the \<open>ignore\<close> library is an object: \<open>ident\<close> tells two instances apart,
  \<open>added\<close> is what has been passed to \<open>add\<close>, in order.
\<close>

record IgnoreParser =
  ident :: nat
  added :: "string list"

record IgnoreCacheEntry =
  parser :: IgnoreParser
  pmtime :: int

text \<open>
  The mutable state: the log of filesystem calls made, the console, the counter object
  handed to \<open>collectFiles\<close> (\<open>None\<close> when the argument is left out), the three
  module-level caches and the number of matcher objects created so far.
\<close>

record state =
  ops :: "fs_op list"
  console :: "diagnostic list"
  counter :: "int option"
  isBinaryCache :: "(path, BinaryCacheEntry) jsmap"
  tokenCache :: "(path, TokenCacheEntry) jsmap"
  ignoreParserCache :: "(path, IgnoreCacheEntry) jsmap"
  parsersCreated :: nat

definition stat :: "world \<Rightarrow> path \<Rightarrow> state \<Rightarrow> (error + FileStat) \<times> state" where
  "stat w p s = (fs_stat w (length (ops s)) p, s\<lparr>ops := ops s @ [Stat p]\<rparr>)"

definition readDirectory ::
    "world \<Rightarrow> path \<Rightarrow> state \<Rightarrow> (error + (string \<times> nat) list) \<times> state" where
  "readDirectory w p s =
     (fs_readDirectory w (length (ops s)) p, s\<lparr>ops := ops s @ [ReadDirectory p]\<rparr>)"

definition readFile :: "world \<Rightarrow> path \<Rightarrow> state \<Rightarrow> (error + nat list) \<times> state" where
  "readFile w p s = (fs_readFile w (length (ops s)) p, s\<lparr>ops := ops s @ [ReadFile p]\<rparr>)"

text \<open>
  An \<open>AbortSignal\<close> is read at the moment of the test; what it says may differ from one
  filesystem call to the next. \<open>None\<close> is the argument left out.
\<close>

definition aborted :: "(nat \<Rightarrow> bool) option \<Rightarrow> state \<Rightarrow> bool" where
  "aborted signal s = (case signal of None \<Rightarrow> False | Some f \<Rightarrow> f (length (ops s)))"

definition warn :: "diagnostic \<Rightarrow> state \<Rightarrow> state" where
  "warn d s = s\<lparr>console := console s @ [d]\<rparr>"

section \<open>Path arithmetic\<close>

text \<open>
  \<open>path.relative(from, to)\<close> on normalised absolute paths, as segments: the common
  prefix is dropped, each remaining segment of \<open>from\<close> becomes \<open>..\<close>. The source joins
  the segments of the result with \<open>/\<close>.
\<close>

fun relative :: "path \<Rightarrow> path \<Rightarrow> path" where
  "relative [] to = to"
| "relative (a # from) [] = replicate (length (a # from)) ''..''"
| "relative (a # from) (b # to) =
     (if a = b then relative from to else replicate (length (a # from)) ''..'' @ (b # to))"

fun slashJoin :: "string list \<Rightarrow> string" where
  "slashJoin [] = []"
| "slashJoin [x] = x"
| "slashJoin (x # y # zs) = x @ ''/'' @ slashJoin (y # zs)"

definition joinPath :: "path \<Rightarrow> string \<Rightarrow> path" where
  "joinPath uri name = uri @ [name]"

section \<open>collectFiles\<close>

text \<open>
  \<open>collectFiles\<close> of utils.ts, with the \<open>for\<close> loop over the children as
  \<open>collectChildren\<close> (its \<open>out\<close> array is the accumulator). The traversal of a tree
  that never ends (a cycle of links) does not return: the recursion depth is bounded by
  the fuel and running out of it is the result \<open>None\<close>. \<open>fsLimit\<close> hands on the result
  or the rejection of the call it wraps, so it does not show here. The result holds the
  paths themselves where the source holds their \<open>fsPath\<close> strings.
\<close>

definition capReached :: "int option \<Rightarrow> state \<Rightarrow> bool" where
  "capReached maxFiles s =
     (case (maxFiles, counter s) of (Some m, Some c) \<Rightarrow> c \<ge> m | _ \<Rightarrow> False)"

fun collectFiles ::
    "nat \<Rightarrow> world \<Rightarrow> (string \<Rightarrow> bool) \<Rightarrow> path \<Rightarrow> (nat \<Rightarrow> bool) option \<Rightarrow> int option
      \<Rightarrow> path \<Rightarrow> state \<Rightarrow> (error + path list) option \<times> state"
and collectChildren ::
    "nat \<Rightarrow> world \<Rightarrow> (string \<Rightarrow> bool) \<Rightarrow> path \<Rightarrow> (nat \<Rightarrow> bool) option \<Rightarrow> int option
      \<Rightarrow> path \<Rightarrow> string list \<Rightarrow> path list \<Rightarrow> state \<Rightarrow> (error + path list) option \<times> state"
where
  "collectFiles 0 w ignores root signal maxFiles uri s = (None, s)"
| "collectFiles (Suc fuel) w ignores root signal maxFiles uri s =
     (if aborted signal s then (Some (Inr []), s)
      else
        let rel = slashJoin (relative root uri) in
        case stat w uri s of
          (Inl e, s1) \<Rightarrow> (Some (Inl e), s1)
        | (Inr st, s1) \<Rightarrow>
            if ftype st = FileType_Directory then
              (let relDir = (if rel = [] then None else Some (rel @ ''/'')) in
               if (case relDir of None \<Rightarrow> False | Some d \<Rightarrow> ignores d) then (Some (Inr []), s1)
               else if aborted signal s1 then (Some (Inr []), s1)
               else
                 case readDirectory w uri s1 of
                   (Inl e, s2) \<Rightarrow> (Some (Inl e), s2)
                 | (Inr children, s2) \<Rightarrow>
                     collectChildren fuel w ignores root signal maxFiles uri
                       (map fst children) [] s2)
            else if rel \<noteq> [] \<and> ignores rel then (Some (Inr []), s1)
            else
              (case (maxFiles, counter s1) of
                 (Some m, Some c) \<Rightarrow>
                   if c \<ge> m then (Some (Inr []), s1)
                   else (Some (Inr [uri]), s1\<lparr>counter := Some (c + 1)\<rparr>)
               | _ \<Rightarrow> (Some (Inr [uri]), s1)))"
| "collectChildren fuel w ignores root signal maxFiles uri [] out s = (Some (Inr out), s)"
| "collectChildren fuel w ignores root signal maxFiles uri (name # names) out s =
     (if aborted signal s then (Some (Inr out), s)
      else if capReached maxFiles s then
        (Some (Inr out),
         if counter s = maxFiles then warn (Warn_collectFiles_hit_cap (the maxFiles)) s else s)
      else
        let childUri = joinPath uri name in
        case collectFiles fuel w ignores root signal maxFiles childUri s of
          (None, s') \<Rightarrow> (None, s')
        | (Some (Inl e), s') \<Rightarrow> (Some (Inl e), s')
        | (Some (Inr nested), s') \<Rightarrow>
            collectChildren fuel w ignores root signal maxFiles uri names (out @ nested) s')"

text \<open>
  A directory is ignored when its path relative to the root is not empty and, with a
  slash appended, matches: the test \<open>relDir && ignoreParser.ignores(relDir)\<close>.
\<close>

definition ignoredDir :: "(string \<Rightarrow> bool) \<Rightarrow> path \<Rightarrow> path \<Rightarrow> bool" where
  "ignoredDir ignores root d \<longleftrightarrow>
     slashJoin (relative root d) \<noteq> [] \<and> ignores (slashJoin (relative root d) @ ''/'')"

section \<open>isBinary\<close>

text \<open>
  The inner \<open>for\<close> loop over one chunk of a stream: it stops at the first zero byte or
  when 512 bytes have been looked at, and hands back \<open>result\<close> and \<open>total\<close> (here \<open>seen\<close>).
\<close>

fun scanChunk :: "nat list \<Rightarrow> nat \<Rightarrow> bool \<times> nat" where
  "scanChunk [] seen = (False, seen)"
| "scanChunk (b # bs) seen =
     (if seen < 512 then (if b = 0 then (True, seen) else scanChunk bs (seen + 1))
      else (False, seen))"

text \<open>
  The \<open>while (seen < 512)\<close> loop over the reads of the stream. A stream is the finite
  list of what its reads give; once the list is used up a read gives \<open>done\<close>.
\<close>

fun scanStream :: "path \<Rightarrow> read_result list \<Rightarrow> nat \<Rightarrow> state \<Rightarrow> (error + bool) \<times> state" where
  "scanStream p rs seen s =
     (if seen < 512 then
        (let s1 = s\<lparr>ops := ops s @ [StreamRead p]\<rparr> in
         case rs of
           [] \<Rightarrow> (Inr False, s1)
         | ReadThrows e # rest \<Rightarrow> (Inl e, s1)
         | Chunk value done # rest \<Rightarrow>
             (case value of
                None \<Rightarrow> (Inr False, s1)
              | Some bytes \<Rightarrow>
                  if done then (Inr False, s1)
                  else (case scanChunk bytes seen of
                          (True, seen') \<Rightarrow> (Inr True, s1)
                        | (False, seen') \<Rightarrow> scanStream p rest seen' s1)))
      else (Inr False, s))"

text \<open>The second \<open>try\<close> block of \<open>isBinary\<close> up to the value of \<open>result\<close>.\<close>

definition binaryCheck :: "world \<Rightarrow> path \<Rightarrow> state \<Rightarrow> (error + bool) \<times> state" where
  "binaryCheck w absPath s =
     (case fs_readFileStream w of
        Some readFileStream \<Rightarrow>
          (let s1 = s\<lparr>ops := ops s @ [ReadFileStream absPath]\<rparr> in
           case readFileStream (length (ops s)) absPath of
             Inl e \<Rightarrow> (Inl e, s1)
           | Inr stream \<Rightarrow> scanStream absPath stream 0 s1)
      | None \<Rightarrow>
          (case readFile w absPath s of
             (Inl e, s1) \<Rightarrow> (Inl e, s1)
           | (Inr bytes, s1) \<Rightarrow> (Inr (list_ex (\<lambda>b. b = 0) (take 512 bytes)), s1)))"

definition cacheBinary :: "path \<Rightarrow> bool \<Rightarrow> FileStat option \<Rightarrow> state \<Rightarrow> state" where
  "cacheBinary absPath result stats s =
     (case stats of
        None \<Rightarrow> s
      | Some st \<Rightarrow>
          s\<lparr>isBinaryCache := evictOldestBinaryCacheEntries
               (Map_set absPath \<lparr>isBinary_of = result, bmtime = mtime st\<rparr> (isBinaryCache s))\<rparr>)"

text \<open>
  \<open>isBinary\<close>: the first \<open>try\<close> sets \<open>stats\<close> and may return the cached verdict; a
  failing \<open>stat\<close> is swallowed. The second \<open>try\<close> computes the verdict; its \<open>catch\<close>
  answers \<open>true\<close>. Both ways the verdict is cached when \<open>stats\<close> is set.
\<close>

definition isBinary :: "world \<Rightarrow> path \<Rightarrow> state \<Rightarrow> (error + bool) \<times> state" where
  "isBinary w absPath s =
     (case stat w absPath s of (r0, s0) \<Rightarrow>
        let stats = (case r0 of Inl e \<Rightarrow> None | Inr st \<Rightarrow> Some st);
            hit = (case stats of
                     None \<Rightarrow> None
                   | Some st \<Rightarrow>
                       (case Map_get (isBinaryCache s0) absPath of
                          None \<Rightarrow> None
                        | Some cached \<Rightarrow>
                            if bmtime cached = mtime st then Some (isBinary_of cached) else None))
        in case hit of
             Some verdict \<Rightarrow> (Inr verdict, s0)
           | None \<Rightarrow>
               (case binaryCheck w absPath s0 of
                  (Inr result, s1) \<Rightarrow> (Inr result, cacheBinary absPath result stats s1)
                | (Inl e, s1) \<Rightarrow> (Inr True, cacheBinary absPath True stats s1)))"

section \<open>countTokens\<close>

text \<open>The \<open>try\<close> block of the task that \<open>countTokens\<close> runs for one path.\<close>

definition countTokensBody ::
    "world \<Rightarrow> (nat \<Rightarrow> bool) option \<Rightarrow> path \<Rightarrow> state \<Rightarrow> (error + nat) \<times> state" where
  "countTokensBody w signal absPath s =
     (case stat w absPath s of
        (Inl e, s1) \<Rightarrow> (Inl e, s1)
      | (Inr stats, s1) \<Rightarrow>
          if fsize stats > MAX_PREVIEW_BYTES w then (Inr 0, s1)
          else
            (case (case Map_get (tokenCache s1) absPath of
                     None \<Rightarrow> None
                   | Some cached \<Rightarrow>
                       if tmtime cached = mtime stats \<and> tsize cached = fsize stats
                       then Some (tokens cached) else None) of
               Some n \<Rightarrow> (Inr n, s1)
             | None \<Rightarrow>
                 if aborted signal s1 then (Inr 0, s1)
                 else
                   (case isBinary w absPath s1 of
                      (Inl e, s2) \<Rightarrow> (Inl e, s2)
                    | (Inr True, s2) \<Rightarrow> (Inr 0, s2)
                    | (Inr False, s2) \<Rightarrow>
                        if aborted signal s2 then (Inr 0, s2)
                        else
                          (case readFile w absPath s2 of
                             (Inl e, s3) \<Rightarrow> (Inl e, s3)
                           | (Inr bytes, s3) \<Rightarrow>
                               (case encode_length w bytes of
                                  Inl e \<Rightarrow> (Inl e, s3)
                                | Inr n \<Rightarrow>
                                    (Inr n,
                                     s3\<lparr>tokenCache := evictOldestCacheEntries
                                          (Map_set absPath
                                             \<lparr>tokens = n, tmtime = mtime stats, tsize = fsize stats\<rparr>
                                             (tokenCache s3))\<rparr>))))))"

text \<open>The task itself: the test of the signal, then the \<open>try\<close> block and its \<open>catch\<close>.\<close>

definition countTokensTask ::
    "world \<Rightarrow> (nat \<Rightarrow> bool) option \<Rightarrow> path \<Rightarrow> state \<Rightarrow> (error + nat) \<times> state" where
  "countTokensTask w signal absPath s =
     (if aborted signal s then (Inr 0, s)
      else
        case countTokensBody w signal absPath s of
          (Inr n, s') \<Rightarrow> (Inr n, s')
        | (Inl e, s') \<Rightarrow> (Inr 0, warn (Error_processing_file absPath e) s'))"

text \<open>
  \<open>countTokens\<close> hands one task per path to \<open>limit = createLimit(8)\<close> and awaits
  them all. A task runs until its next \<open>await\<close> and is resumed later, so the tasks of
  one call interleave. The limiter is taken as idle when the call starts.
\<close>

definition tokenLimitConcurrency :: nat where
  "tokenLimitConcurrency = 8"

text \<open>
  Where a task stands: \<open>Waiting\<close> before its \<open>run\<close> is entered, then at one of its
  \<open>await\<close>s, holding the local variables it needs later (\<open>stats\<close> of the task,
  \<open>stats\<close> of \<open>isBinary\<close> once set, the rest of the stream and \<open>total\<close>) and what the
  awaited call delivers (the filesystem answers a call according to its place in the
  log of calls). \<open>AwaitIsBinary\<close> is the task at \<open>await isBinary(absPath)\<close> with the
  verdict that has been returned; \<open>Returned\<close> is \<open>run\<close> at \<open>await fn()\<close> with the
  result of the task; \<open>Settled\<close> is after \<open>resolve\<close> or \<open>reject\<close> and the \<open>finally\<close>
  block.
\<close>

datatype task =
    Waiting
  | AwaitStat "error + FileStat"
  | AwaitBinaryStat FileStat "error + FileStat"
  | AwaitReadFileStream FileStat "FileStat option" "error + read_result list"
  | AwaitStreamRead FileStat "FileStat option" "read_result list" nat
  | AwaitBinaryReadFile FileStat "FileStat option" "error + nat list"
  | AwaitIsBinary FileStat "error + bool"
  | AwaitReadFile FileStat "error + nat list"
  | Returned "error + nat"
  | Settled "error + nat"

text \<open>
  The task from its call up to its first \<open>await\<close>.
\<close>

definition startTask ::
    "world \<Rightarrow> (nat \<Rightarrow> bool) option \<Rightarrow> path \<Rightarrow> state \<Rightarrow> task \<times> state" where
  "startTask w signal absPath s =
     (if aborted signal s then (Returned (Inr 0), s)
      else case stat w absPath s of (r, s1) \<Rightarrow> (AwaitStat r, s1))"

text \<open>
  The \<open>catch\<close> of the task; the end of \<open>isBinary\<close> by \<open>return\<close> or by its \<open>catch\<close>,
  where the verdict is cached if \<open>stats\<close> is set; and the test of the \<open>while\<close> loop
  over the stream with the next \<open>reader.read()\<close>.
\<close>

definition catchTask :: "path \<Rightarrow> error \<Rightarrow> state \<Rightarrow> task \<times> state" where
  "catchTask absPath e s = (Returned (Inr 0), warn (Error_processing_file absPath e) s)"

definition binaryVerdict ::
    "path \<Rightarrow> FileStat \<Rightarrow> FileStat option \<Rightarrow> bool \<Rightarrow> state \<Rightarrow> task \<times> state" where
  "binaryVerdict absPath stats bstats result s =
     (AwaitIsBinary stats (Inr result), cacheBinary absPath result bstats s)"

definition nextStreamRead ::
    "path \<Rightarrow> FileStat \<Rightarrow> FileStat option \<Rightarrow> read_result list \<Rightarrow> nat \<Rightarrow> state \<Rightarrow> task \<times> state" where
  "nextStreamRead absPath stats bstats rs seen s =
     (if seen < 512
      then (AwaitStreamRead stats bstats rs seen, s\<lparr>ops := ops s @ [StreamRead absPath]\<rparr>)
      else binaryVerdict absPath stats bstats False s)"

text \<open>
  A task resumed at its \<open>await\<close> runs to its next one. The equations follow the text
  of the task and of \<open>isBinary\<close> from one \<open>await\<close> to the next.
\<close>

fun resumeTask ::
    "world \<Rightarrow> (nat \<Rightarrow> bool) option \<Rightarrow> path \<Rightarrow> task \<Rightarrow> state \<Rightarrow> task \<times> state" where
  "resumeTask w signal absPath (AwaitStat (Inl e)) s = catchTask absPath e s"
| "resumeTask w signal absPath (AwaitStat (Inr stats)) s =
     (if fsize stats > MAX_PREVIEW_BYTES w then (Returned (Inr 0), s)
      else
        (case (case Map_get (tokenCache s) absPath of
                 None \<Rightarrow> None
               | Some cached \<Rightarrow>
                   if tmtime cached = mtime stats \<and> tsize cached = fsize stats
                   then Some (tokens cached) else None) of
           Some n \<Rightarrow> (Returned (Inr n), s)
         | None \<Rightarrow>
             if aborted signal s then (Returned (Inr 0), s)
             else (case stat w absPath s of (r, s1) \<Rightarrow> (AwaitBinaryStat stats r, s1))))"
| "resumeTask w signal absPath (AwaitBinaryStat stats r) s =
     (let bstats = (case r of Inl e \<Rightarrow> None | Inr st \<Rightarrow> Some st);
          hit = (case bstats of
                   None \<Rightarrow> None
                 | Some st \<Rightarrow>
                     (case Map_get (isBinaryCache s) absPath of
                        None \<Rightarrow> None
                      | Some cached \<Rightarrow>
                          if bmtime cached = mtime st then Some (isBinary_of cached) else None))
      in case hit of
           Some verdict \<Rightarrow> (AwaitIsBinary stats (Inr verdict), s)
         | None \<Rightarrow>
             (case fs_readFileStream w of
                Some readFileStream \<Rightarrow>
                  (AwaitReadFileStream stats bstats (readFileStream (length (ops s)) absPath),
                   s\<lparr>ops := ops s @ [ReadFileStream absPath]\<rparr>)
              | None \<Rightarrow>
                  (case readFile w absPath s of
                     (rb, s1) \<Rightarrow> (AwaitBinaryReadFile stats bstats rb, s1))))"
| "resumeTask w signal absPath (AwaitReadFileStream stats bstats (Inl e)) s =
     binaryVerdict absPath stats bstats True s"
| "resumeTask w signal absPath (AwaitReadFileStream stats bstats (Inr stream)) s =
     nextStreamRead absPath stats bstats stream 0 s"
| "resumeTask w signal absPath (AwaitStreamRead stats bstats rs seen) s =
     (case rs of
        [] \<Rightarrow> binaryVerdict absPath stats bstats False s
      | ReadThrows e # rest \<Rightarrow> binaryVerdict absPath stats bstats True s
      | Chunk value done # rest \<Rightarrow>
          (case value of
             None \<Rightarrow> binaryVerdict absPath stats bstats False s
           | Some bytes \<Rightarrow>
               if done then binaryVerdict absPath stats bstats False s
               else (case scanChunk bytes seen of
                       (True, seen') \<Rightarrow> binaryVerdict absPath stats bstats True s
                     | (False, seen') \<Rightarrow> nextStreamRead absPath stats bstats rest seen' s)))"
| "resumeTask w signal absPath (AwaitBinaryReadFile stats bstats (Inl e)) s =
     binaryVerdict absPath stats bstats True s"
| "resumeTask w signal absPath (AwaitBinaryReadFile stats bstats (Inr bytes)) s =
     binaryVerdict absPath stats bstats (list_ex (\<lambda>b. b = 0) (take 512 bytes)) s"
| "resumeTask w signal absPath (AwaitIsBinary stats (Inl e)) s = catchTask absPath e s"
| "resumeTask w signal absPath (AwaitIsBinary stats (Inr verdict)) s =
     (if verdict then (Returned (Inr 0), s)
      else if aborted signal s then (Returned (Inr 0), s)
      else (case readFile w absPath s of (r, s1) \<Rightarrow> (AwaitReadFile stats r, s1)))"
| "resumeTask w signal absPath (AwaitReadFile stats (Inl e)) s = catchTask absPath e s"
| "resumeTask w signal absPath (AwaitReadFile stats (Inr bytes)) s =
     (case encode_length w bytes of
        Inl e \<Rightarrow> catchTask absPath e s
      | Inr n \<Rightarrow>
          (Returned (Inr n),
           s\<lparr>tokenCache := evictOldestCacheEntries
                (Map_set absPath \<lparr>tokens = n, tmtime = mtime stats, tsize = fsize stats\<rparr>
                   (tokenCache s))\<rparr>))"
| "resumeTask w signal absPath Waiting s = (Waiting, s)"
| "resumeTask w signal absPath (Returned r) s = (Returned r, s)"
| "resumeTask w signal absPath (Settled r) s = (Settled r, s)"

text \<open>
  One call of \<open>countTokens\<close> under way: the state of the extension, the tasks in the
  order of \<open>paths\<close>, and the limiter, whose tasks are the indices into that list.
\<close>

record batch =
  shared :: state
  tasks :: "(path \<times> task) list"
  pool :: "nat limiter"

text \<open>
  \<open>run\<close> entered for task \<open>i\<close>: the limiter has counted it, \<open>fn()\<close> is called. The
  tasks entered by a step of the limiter are those it has added to \<open>started\<close>.
\<close>

definition enterTask :: "world \<Rightarrow> (nat \<Rightarrow> bool) option \<Rightarrow> nat \<Rightarrow> batch \<Rightarrow> batch" where
  "enterTask w signal i b =
     (if i < length (tasks b) \<and> snd (tasks b ! i) = Waiting then
        (case startTask w signal (fst (tasks b ! i)) (shared b) of
           (t, s') \<Rightarrow> b\<lparr>shared := s', tasks := (tasks b)[i := (fst (tasks b ! i), t)]\<rparr>)
      else b)"

definition newlyStarted :: "'a limiter \<Rightarrow> 'a limiter \<Rightarrow> 'a list" where
  "newlyStarted earlier later = drop (length (started earlier)) (started later)"

text \<open>
  \<open>limit(fn)\<close> for task \<open>i\<close>; \<open>run\<close> after \<open>await fn()\<close> for task \<open>i\<close> with result \<open>r\<close>;
  and one step of task \<open>i\<close>, whichever applies.
\<close>

definition submitTask :: "world \<Rightarrow> (nat \<Rightarrow> bool) option \<Rightarrow> nat \<Rightarrow> batch \<Rightarrow> batch" where
  "submitTask w signal i b =
     (let after = limit tokenLimitConcurrency i (pool b)
      in fold (enterTask w signal) (newlyStarted (pool b) after) (b\<lparr>pool := after\<rparr>))"

definition fulfilled :: "error + 'a \<Rightarrow> bool" where
  "fulfilled r = (case r of Inl e \<Rightarrow> False | Inr v \<Rightarrow> True)"

definition settleTask ::
    "world \<Rightarrow> (nat \<Rightarrow> bool) option \<Rightarrow> nat \<Rightarrow> error + nat \<Rightarrow> batch \<Rightarrow> batch" where
  "settleTask w signal i r b =
     (let after = finish tokenLimitConcurrency i (fulfilled r) (pool b)
      in fold (enterTask w signal) (newlyStarted (pool b) after)
           (b\<lparr>tasks := (tasks b)[i := (fst (tasks b ! i), Settled r)], pool := after\<rparr>))"

definition stepTask :: "world \<Rightarrow> (nat \<Rightarrow> bool) option \<Rightarrow> nat \<Rightarrow> batch \<Rightarrow> batch" where
  "stepTask w signal i b =
     (case tasks b ! i of
        (absPath, Returned r) \<Rightarrow> settleTask w signal i r b
      | (absPath, t) \<Rightarrow>
          (case resumeTask w signal absPath t (shared b) of
             (t', s') \<Rightarrow> b\<lparr>shared := s', tasks := (tasks b)[i := (absPath, t')]\<rparr>))"

text \<open>
  The tasks that can be resumed, and the measure by which every step comes closer to
  the end: a task moves through its stages, and once its stream is open, through what
  is left of it.
\<close>

fun isReady :: "task \<Rightarrow> bool" where
  "isReady Waiting = False"
| "isReady (Settled r) = False"
| "isReady t = True"

definition ready :: "batch \<Rightarrow> nat list" where
  "ready b = filter (\<lambda>i. isReady (snd (tasks b ! i))) [0..<length (tasks b)]"

fun stage :: "task \<Rightarrow> nat" where
  "stage Waiting = 4"
| "stage (AwaitStat r) = 3"
| "stage (AwaitBinaryStat stats r) = 2"
| "stage (AwaitReadFileStream stats bstats r) = 1"
| "stage t = 0"

fun remaining :: "task \<Rightarrow> nat" where
  "remaining (AwaitStreamRead stats bstats rs seen) = 6 + length rs"
| "remaining (AwaitBinaryReadFile stats bstats r) = 6"
| "remaining (AwaitIsBinary stats r) = 5"
| "remaining (AwaitReadFile stats r) = 4"
| "remaining (Returned r) = 2"
| "remaining t = 0"

definition weight :: "batch \<Rightarrow> nat \<times> nat" where
  "weight b = (sum_list (map (stage \<circ> snd) (tasks b)), sum_list (map (remaining \<circ> snd) (tasks b)))"

lemma sum_list_map_update:
  "i < length xs \<Longrightarrow> sum_list (map f (xs[i := y])) + f (xs ! i) = sum_list (map f xs) + (f y :: nat)"
proof (induction xs arbitrary: i)
  case Nil
  then show ?case by simp
next
  case (Cons x xs)
  then show ?case by (cases i) (auto simp: add.assoc)
qed

lemma resume_decreases:
  assumes "isReady t" and "\<forall>r. t \<noteq> Returned r" and "resumeTask w signal p t s = (t', s')"
  shows "stage t' < stage t \<or> (stage t' = stage t \<and> remaining t' < remaining t)"
  using assms
  by (cases "(w, signal, p, t, s)" rule: resumeTask.cases)
     (auto simp: catchTask_def binaryVerdict_def nextStreamRead_def Let_def
       split: if_splits option.splits sum.splits prod.splits list.splits read_result.splits
         bool.splits)

lemma startTask_stage: "startTask w signal p s = (t, s') \<Longrightarrow> stage t < 4"
  by (auto simp: startTask_def split: if_splits prod.splits)

lemma length_tasks_enterTask [simp]: "length (tasks (enterTask w signal j b)) = length (tasks b)"
  by (auto simp: enterTask_def split: prod.splits)

lemma weight_enterTask:
  "weight (enterTask w signal j b) = weight b \<or> fst (weight (enterTask w signal j b)) < fst (weight b)"
proof (cases "j < length (tasks b) \<and> snd (tasks b ! j) = Waiting")
  case False
  then show ?thesis by (auto simp: enterTask_def)
next
  case True
  obtain t s' where st: "startTask w signal (fst (tasks b ! j)) (shared b) = (t, s')"
    by (cases "startTask w signal (fst (tasks b ! j)) (shared b)")
  from startTask_stage [OF st] have lt: "stage t < 4" .
  from True have j: "j < length (tasks b)" and wt: "snd (tasks b ! j) = Waiting" by simp_all
  have "sum_list (map (stage \<circ> snd) ((tasks b)[j := (fst (tasks b ! j), t)])) + (stage \<circ> snd) (tasks b ! j)
        = sum_list (map (stage \<circ> snd) (tasks b)) + (stage \<circ> snd) (fst (tasks b ! j), t)"
    using j by (rule sum_list_map_update)
  with lt wt have "sum_list (map (stage \<circ> snd) ((tasks b)[j := (fst (tasks b ! j), t)]))
        < sum_list (map (stage \<circ> snd) (tasks b))" by simp
  with True st show ?thesis by (simp add: enterTask_def weight_def)
qed

lemma newlyStarted_finish:
  "newlyStarted l (finish c t ok l) = (if queue l \<noteq> [] \<and> running l - 1 < c then [hd (queue l)] else [])"
  by (simp add: newlyStarted_def finish_def run_def Let_def)


lemma step_decreases:
  assumes "i < length (tasks b)" and "isReady (snd (tasks b ! i))"
  shows "(weight (stepTask w signal i b), weight b) \<in> less_than <*lex*> less_than"
proof -
  obtain p t where pt: "tasks b ! i = (p, t)" by (cases "tasks b ! i")
  show ?thesis
  proof (cases "\<exists>r. t = Returned r")
    case True
    then obtain r where t: "t = Returned r" by blast
    let ?after = "finish tokenLimitConcurrency i (fulfilled r) (pool b)"
    let ?b1 = "b\<lparr>tasks := (tasks b)[i := (fst (tasks b ! i), Settled r)], pool := ?after\<rparr>"
    have s1: "sum_list (map (stage \<circ> snd) (tasks ?b1)) = sum_list (map (stage \<circ> snd) (tasks b))"
      using sum_list_map_update [OF assms(1), of "stage \<circ> snd" "(p, Settled r)"] pt t by simp
    have s2: "sum_list (map (remaining \<circ> snd) (tasks ?b1)) + 2 = sum_list (map (remaining \<circ> snd) (tasks b))"
      using sum_list_map_update [OF assms(1), of "remaining \<circ> snd" "(p, Settled r)"] pt t by simp
    have w1: "(weight ?b1, weight b) \<in> less_than <*lex*> less_than"
      using s1 s2 by (simp add: weight_def)
    have st: "stepTask w signal i b = fold (enterTask w signal) (newlyStarted (pool b) ?after) ?b1"
      using pt t by (simp add: stepTask_def settleTask_def Let_def)
    show ?thesis
    proof (cases "queue (pool b) \<noteq> [] \<and> running (pool b) - 1 < tokenLimitConcurrency")
      case False
      then have "newlyStarted (pool b) ?after = []" by (simp add: newlyStarted_finish)
      with st w1 show ?thesis by simp
    next
      case True
      then have "newlyStarted (pool b) ?after = [hd (queue (pool b))]" by (simp add: newlyStarted_finish)
      with st have e: "stepTask w signal i b = enterTask w signal (hd (queue (pool b))) ?b1" by simp
      from weight_enterTask [of w signal "hd (queue (pool b))" ?b1] w1 show ?thesis
        unfolding e by (auto simp: weight_def)
    qed
  next
    case False
    obtain t' s' where r: "resumeTask w signal p t (shared b) = (t', s')"
      by (cases "resumeTask w signal p t (shared b)")
    from False have nr: "\<forall>r. t \<noteq> Returned r" by simp
    from assms(2) pt have rd: "isReady t" by simp
    from resume_decreases [OF rd nr r]
    have d: "stage t' < stage t \<or> (stage t' = stage t \<and> remaining t' < remaining t)" .
    have "stepTask w signal i b =
        (case resumeTask w signal p t (shared b) of
           (t', s') \<Rightarrow> b\<lparr>shared := s', tasks := (tasks b)[i := (p, t')]\<rparr>)"
      using pt False by (cases t) (simp_all add: stepTask_def del: resumeTask.simps)
    then have st: "stepTask w signal i b = b\<lparr>shared := s', tasks := (tasks b)[i := (p, t')]\<rparr>"
      by (simp add: r)
    have s1: "sum_list (map (stage \<circ> snd) ((tasks b)[i := (p, t')])) + stage t
        = sum_list (map (stage \<circ> snd) (tasks b)) + stage t'"
      using sum_list_map_update [OF assms(1), of "stage \<circ> snd" "(p, t')"] pt by simp
    have s2: "sum_list (map (remaining \<circ> snd) ((tasks b)[i := (p, t')])) + remaining t
        = sum_list (map (remaining \<circ> snd) (tasks b)) + remaining t'"
      using sum_list_map_update [OF assms(1), of "remaining \<circ> snd" "(p, t')"] pt by simp
    from d s1 s2 show ?thesis
      unfolding st by (auto simp: weight_def)
  qed
qed

lemma ready_member:
  "ready b \<noteq> [] \<Longrightarrow> n < length (ready b) \<Longrightarrow>
   ready b ! n < length (tasks b) \<and> isReady (snd (tasks b ! (ready b ! n)))"
proof -
  assume "n < length (ready b)"
  then have "ready b ! n \<in> set (ready b)" by (rule nth_mem)
  then show ?thesis by (simp add: ready_def)
qed

text \<open>
  The tasks are resumed one at a time until none is left to resume. Which of the tasks
  at an \<open>await\<close> goes next is up to the host: step \<open>k\<close> resumes the task that \<open>sched k\<close>
  picks among those that can be resumed.
\<close>

function runBatch ::
    "world \<Rightarrow> (nat \<Rightarrow> bool) option \<Rightarrow> (nat \<Rightarrow> nat) \<Rightarrow> nat \<Rightarrow> batch \<Rightarrow> batch" where
  "runBatch w signal sched k b =
     (if ready b = [] then b
      else runBatch w signal sched (Suc k)
             (stepTask w signal (ready b ! (sched k mod length (ready b))) b))"
  by pat_completeness auto
termination
proof (relation "inv_image (less_than <*lex*> less_than) (\<lambda>(w, signal, sched, k, b). weight b)")
  show "wf (inv_image (less_than <*lex*> less_than) (\<lambda>(w, signal, sched, k, b). weight b))"
    by (intro wf_inv_image wf_lex_prod wf_less_than)
next
  fix w :: world and signal :: "(nat \<Rightarrow> bool) option" and sched :: "nat \<Rightarrow> nat" and k :: nat
    and b :: batch
  assume ne: "ready b \<noteq> []"
  then have "sched k mod length (ready b) < length (ready b)" by simp
  from ready_member [OF ne this] step_decreases
  show "((w, signal, sched, Suc k, stepTask w signal (ready b ! (sched k mod length (ready b))) b),
         (w, signal, sched, k, b))
        \<in> inv_image (less_than <*lex*> less_than) (\<lambda>(w, signal, sched, k, b). weight b)"
    by simp
qed

text \<open>
  The results of the tasks when all have settled; \<open>promiseAll\<close> is \<open>Promise.all\<close> on
  them: the first rejection, or all the values.
\<close>

fun outcomes :: "(path \<times> task) list \<Rightarrow> (error + nat) list option" where
  "outcomes [] = Some []"
| "outcomes ((absPath, Settled r) # ts) = map_option ((#) r) (outcomes ts)"
| "outcomes ((absPath, t) # ts) = None"

fun promiseAll :: "(error + 'a) list \<Rightarrow> error + 'a list" where
  "promiseAll [] = Inr []"
| "promiseAll (Inl e # rs) = Inl e"
| "promiseAll (Inr v # rs) = (case promiseAll rs of Inl e \<Rightarrow> Inl e | Inr vs \<Rightarrow> Inr (v # vs))"

text \<open>
  \<open>paths.map(absPath => limit(...))\<close> submits the tasks in order, which enters the first
  eight; then the tasks run until all have settled.
\<close>

definition runTasks ::
    "world \<Rightarrow> (nat \<Rightarrow> bool) option \<Rightarrow> (nat \<Rightarrow> nat) \<Rightarrow> path list \<Rightarrow> state \<Rightarrow> batch" where
  "runTasks w signal sched paths s =
     runBatch w signal sched 0
       (fold (submitTask w signal) [0..<length paths]
          \<lparr>shared = s, tasks = map (\<lambda>absPath. (absPath, Waiting)) paths, pool = createLimit\<rparr>)"

text \<open>
  \<open>countTokens\<close>. The result is \<open>None\<close> if some task never settles, since then the
  \<open>await\<close> of \<open>Promise.all\<close> never ends.
\<close>

definition countTokens ::
    "world \<Rightarrow> (nat \<Rightarrow> bool) option \<Rightarrow> (nat \<Rightarrow> nat) \<Rightarrow> path list \<Rightarrow> state
      \<Rightarrow> (error + nat) option \<times> state" where
  "countTokens w signal sched paths s =
     (if aborted signal s then (Some (Inr 0), s)
      else
        (let b = runTasks w signal sched paths (warn (Log_countTokens_start (length paths)) s)
         in case outcomes (tasks b) of
              None \<Rightarrow> (None, shared b)
            | Some rs \<Rightarrow>
                (case promiseAll rs of
                   Inl e \<Rightarrow> (Some (Inl e), shared b)
                 | Inr tokenCounts \<Rightarrow>
                     (let total = foldl (+) 0 tokenCounts
                      in (Some (Inr total), warn (Log_countTokens_done total) (shared b))))))"


section \<open>getIgnoreParser\<close>

definition DEFAULT_IGNORE_PATTERNS :: "string list" where
  "DEFAULT_IGNORE_PATTERNS = [''.git/'', ''.git'']"

text \<open>\<open>ignore()\<close> makes a new matcher object; \<open>add\<close> appends to what it holds.\<close>

definition ignore :: "state \<Rightarrow> IgnoreParser \<times> state" where
  "ignore s = (\<lparr>ident = parsersCreated s, added = []\<rparr>, s\<lparr>parsersCreated := parsersCreated s + 1\<rparr>)"

definition add :: "string list \<Rightarrow> IgnoreParser \<Rightarrow> IgnoreParser" where
  "add patterns p = p\<lparr>added := added p @ patterns\<rparr>"

text \<open>The \<open>try\<close> block of \<open>getIgnoreParser\<close>; the cache key is the path of the root.\<close>

definition getIgnoreParserBody ::
    "world \<Rightarrow> path \<Rightarrow> state \<Rightarrow> (error + IgnoreParser) \<times> state" where
  "getIgnoreParserBody w workspaceRootUri s =
     (let gitIgnoreUri = joinPath workspaceRootUri ''.gitignore'' in
      case stat w gitIgnoreUri s of
        (Inl e, s1) \<Rightarrow> (Inl e, s1)
      | (Inr st, s1) \<Rightarrow>
          (let cacheKey = workspaceRootUri in
           case (case Map_get (ignoreParserCache s1) cacheKey of
                   None \<Rightarrow> None
                 | Some cached \<Rightarrow> if pmtime cached = mtime st then Some (parser cached) else None) of
             Some p \<Rightarrow> (Inr p, warn (Log_getIgnoreParser_cache_hit cacheKey) s1)
           | None \<Rightarrow>
               (case readFile w gitIgnoreUri s1 of
                  (Inl e, s2) \<Rightarrow> (Inl e, s2)
                | (Inr gitIgnoreBytes, s2) \<Rightarrow>
                    (let gitIgnoreContent = utf8_decode w gitIgnoreBytes in
                     case ignore s2 of
                       (p0, s3) \<Rightarrow>
                         (let p = add [gitIgnoreContent] (add DEFAULT_IGNORE_PATTERNS p0);
                              s4 = s3\<lparr>ignoreParserCache :=
                                     Map_set cacheKey \<lparr>parser = p, pmtime = mtime st\<rparr>
                                       (ignoreParserCache s3)\<rparr>
                          in (Inr p, warn (Log_getIgnoreParser_loaded cacheKey) s4))))))"

definition getIgnoreParser ::
    "world \<Rightarrow> path \<Rightarrow> state \<Rightarrow> (error + IgnoreParser) \<times> state" where
  "getIgnoreParser w workspaceRootUri s =
     (case getIgnoreParserBody w workspaceRootUri s of
        (Inr p, s') \<Rightarrow> (Inr p, s')
      | (Inl e, s') \<Rightarrow>
          (case ignore (warn (Log_getIgnoreParser_none workspaceRootUri) s') of
             (p0, s'') \<Rightarrow> (Inr (add DEFAULT_IGNORE_PATTERNS p0), s'')))"

section \<open>The file map\<close>

text \<open>
  fileMapGenerator.ts. A \<open>TreeNode\<close> keeps its children in a \<open>Map\<close> from names to
  nodes. Strings are byte strings: the box-drawing characters of the connectors are
  their UTF-8 bytes, a line break is the byte 10.
\<close>

datatype TreeNode = TreeNode (name: string) (isFile: bool) (isSelected: bool)
  (children: "(string \<times> TreeNode) list")

definition createTreeNode :: "string \<Rightarrow> bool \<Rightarrow> bool \<Rightarrow> TreeNode" where
  "createTreeNode n f sel = TreeNode n f sel []"

text \<open>
  The inner loop of \<open>buildTree\<close> for one file: \<open>current\<close> walks down the parts; a
  missing child is created, an existing last part is marked when the file is selected.
\<close>

fun insertParts :: "string list \<Rightarrow> bool \<Rightarrow> TreeNode \<Rightarrow> TreeNode" where
  "insertParts [] sel current = current"
| "insertParts (part # rest) sel current =
     (let isLast = (rest = []);
          selected = (isLast \<and> sel);
          child = (case Map_get (children current) part of
                     None \<Rightarrow> createTreeNode part isLast selected
                   | Some existing \<Rightarrow>
                       if isLast \<and> selected
                       then TreeNode (name existing) (isFile existing) True (children existing)
                       else existing)
      in TreeNode (name current) (isFile current) (isSelected current)
           (Map_set part (insertParts rest sel child) (children current)))"

text \<open>
  \<open>path.basename\<close> of a path, \<open>fsPath\<close> as the string in which a path is printed, and
  \<open>relativePath.split(path.sep)\<close>, which gives one empty part for the empty string.
\<close>

definition basename :: "path \<Rightarrow> string" where
  "basename p = (if p = [] then [] else last p)"

definition fsPath :: "path \<Rightarrow> string" where
  "fsPath p = (if p = [] then ''/'' else concat (map (\<lambda>seg. CHR ''/'' # seg) p))"

definition splitRelative :: "path \<Rightarrow> path \<Rightarrow> string list" where
  "splitRelative workspaceRoot filePath =
     (let rel = relative workspaceRoot filePath in if rel = [] then [[]] else rel)"

definition buildTree :: "path list \<Rightarrow> path \<Rightarrow> path list option \<Rightarrow> TreeNode" where
  "buildTree files workspaceRoot selectedFiles =
     fold (\<lambda>filePath root.
             insertParts (splitRelative workspaceRoot filePath)
               (case selectedFiles of None \<Rightarrow> True | Some sel \<Rightarrow> filePath \<in> set sel) root)
       files (createTreeNode (basename workspaceRoot) False False)"

text \<open>
  \<open>Array.prototype.sort\<close> is stable; with a comparator, it is insertion from the right
  in front of the first element that does not compare smaller. \<open>localeCompare\<close> is the
  collation of the host and a parameter of the renderer.
\<close>

fun insertBy :: "('a \<Rightarrow> 'a \<Rightarrow> int) \<Rightarrow> 'a \<Rightarrow> 'a list \<Rightarrow> 'a list" where
  "insertBy cmp x [] = [x]"
| "insertBy cmp x (y # ys) = (if cmp x y \<le> 0 then x # y # ys else y # insertBy cmp x ys)"

definition sortBy :: "('a \<Rightarrow> 'a \<Rightarrow> int) \<Rightarrow> 'a list \<Rightarrow> 'a list" where
  "sortBy cmp xs = foldr (insertBy cmp) xs []"

definition compareNodes :: "(string \<Rightarrow> string \<Rightarrow> int) \<Rightarrow> TreeNode \<Rightarrow> TreeNode \<Rightarrow> int" where
  "compareNodes localeCompare a b =
     (if \<not> isFile a \<and> isFile b then - 1
      else if isFile a \<and> \<not> isFile b then 1
      else localeCompare (name a) (name b))"

definition sortChildren ::
    "(string \<Rightarrow> string \<Rightarrow> int) \<Rightarrow> (string \<times> TreeNode) list \<Rightarrow> TreeNode list" where
  "sortChildren localeCompare cs = sortBy (compareNodes localeCompare) (map snd cs)"

lemma set_insertBy: "set (insertBy cmp x ys) = insert x (set ys)"
  by (induction ys) auto

lemma set_sortBy: "set (sortBy cmp xs) = set xs"
  by (induction xs) (simp_all add: sortBy_def set_insertBy)

lemma size_child: "(k, c) \<in> set cs \<Longrightarrow> size c < Suc (size_list (size_prod (\<lambda>x. 0) size) cs)"
  by (induction cs) auto

lemma size_sorted_child:
  "c \<in> set (sortChildren lc (children node)) \<Longrightarrow> size c < size node"
  by (cases node) (auto simp: sortChildren_def set_sortBy dest: size_child)

lemma size_sorted_child_nth:
  "i < length (sortChildren lc (children node)) \<Longrightarrow>
   size (sortChildren lc (children node) ! i) < size node"
  by (rule size_sorted_child) (rule nth_mem)

definition connector_last :: string where
  "connector_last = [CHR 0xE2, CHR 0x94, CHR 0x94, CHR 0xE2, CHR 0x94, CHR 0x80,
                     CHR 0xE2, CHR 0x94, CHR 0x80, CHR '' '']"

definition connector_mid :: string where
  "connector_mid = [CHR 0xE2, CHR 0x94, CHR 0x9C, CHR 0xE2, CHR 0x94, CHR 0x80,
                    CHR 0xE2, CHR 0x94, CHR 0x80, CHR '' '']"

definition prefix_bar :: string where
  "prefix_bar = [CHR 0xE2, CHR 0x94, CHR 0x82, CHR '' '', CHR '' '', CHR '' '']"

text \<open>\<open>renderTree\<close>; the lines it pushes are the list it returns.\<close>

function renderTree ::
    "(string \<Rightarrow> string \<Rightarrow> int) \<Rightarrow> TreeNode \<Rightarrow> string \<Rightarrow> bool \<Rightarrow> bool \<Rightarrow> string list" where
  "renderTree lc node prefix isLast isRoot =
     (if isRoot then
        (let sortedChildren = sortChildren lc (children node) in
         concat (map (\<lambda>i. renderTree lc (sortedChildren ! i) []
                              (i = length sortedChildren - 1) False)
                   [0..<length sortedChildren]))
      else
        (let connector = (if isLast then connector_last else connector_mid);
             marker = (if isSelected node then '' *'' else [])
         in (prefix @ connector @ name node @ marker) #
            (if length (children node) > 0 then
               (let newPrefix = prefix @ (if isLast then ''    '' else prefix_bar);
                    sortedChildren = sortChildren lc (children node)
                in concat (map (\<lambda>i. renderTree lc (sortedChildren ! i) newPrefix
                                       (i = length sortedChildren - 1) False)
                            [0..<length sortedChildren]))
             else [])))"
  by pat_completeness auto
termination
  by (relation "measure (\<lambda>(lc, node, prefix, isLast, isRoot). size node)")
     (simp_all add: size_sorted_child_nth)

text \<open>\<open>Array.prototype.join\<close>.\<close>

fun join :: "string \<Rightarrow> string list \<Rightarrow> string" where
  "join sep [] = []"
| "join sep [x] = x"
| "join sep (x # y # zs) = x @ sep @ join sep (y # zs)"

definition generateFileMap ::
    "(string \<Rightarrow> string \<Rightarrow> int) \<Rightarrow> path list \<Rightarrow> path \<Rightarrow> path list option \<Rightarrow> string" where
  "generateFileMap lc files workspaceRoot selectedFiles =
     (if length files = 0 then []
      else
        (let selectedSet = selectedFiles;
             tree = buildTree files workspaceRoot selectedSet;
             lines = fsPath workspaceRoot # renderTree lc tree [] True True
         in ''<file_map>'' @ [CHR 0x0A] @ join [CHR 0x0A] lines @ [CHR 0x0A, CHR 0x0A]
              @ ''(* denotes selected files)'' @ [CHR 0x0A] @ ''</file_map>''))"

record Workspace =
  workspaceName :: string
  workspacePath :: path
  files :: "path list"

definition generateFileMapMultiRoot ::
    "(string \<Rightarrow> string \<Rightarrow> int) \<Rightarrow> (path, Workspace) jsmap \<Rightarrow> path list option \<Rightarrow> string" where
  "generateFileMapMultiRoot lc filesByWorkspace selectedFiles =
     (if length filesByWorkspace = 0 then []
      else
        (let selectedSet = selectedFiles;
             allLines =
               fold (\<lambda>(key, ws) allLines.
                       if length (files ws) = 0 then allLines
                       else
                         (let tree = buildTree (files ws) (workspacePath ws) selectedSet;
                              lines = fsPath (workspacePath ws) # renderTree lc tree [] True True
                          in allLines @ lines @ [[]]))
                 filesByWorkspace [];
             trimmed = (if length allLines > 0 \<and> last allLines = [] then butlast allLines
                        else allLines)
         in ''<file_map>'' @ [CHR 0x0A] @ join [CHR 0x0A] trimmed @ [CHR 0x0A]
              @ ''</file_map>''))"

section \<open>Example inputs\<close>

text \<open>
  A small tree: \<open>/r\<close> holds the directory \<open>a\<close> (files \<open>f1\<close>, \<open>f2\<close>), the file \<open>b\<close>
  and the directory \<open>dist\<close> (file \<open>a.txt\<close>, directory \<open>sub\<close> with file \<open>b.txt\<close>).
  Every call succeeds; every file holds the bytes 104, 105.
\<close>

definition tree_listing :: "path \<Rightarrow> (string \<times> nat) list option" where
  "tree_listing p =
     (if p = [''r''] then Some [(''a'', 2), (''b'', 1), (''dist'', 2)]
      else if p = [''r'', ''a''] then Some [(''f1'', 1), (''f2'', 1)]
      else if p = [''r'', ''dist''] then Some [(''a.txt'', 1), (''sub'', 2)]
      else if p = [''r'', ''dist'', ''sub''] then Some [(''b.txt'', 1)]
      else None)"

definition tree_world :: world where
  "tree_world =
     \<lparr>fs_stat = (\<lambda>t p. case tree_listing p of
          Some _ \<Rightarrow> Inr \<lparr>ftype = FileType_Directory, mtime = 1, fsize = 0\<rparr>
        | None \<Rightarrow> Inr \<lparr>ftype = FileType_File, mtime = 1, fsize = 2\<rparr>),
      fs_readDirectory = (\<lambda>t p. case tree_listing p of
          Some l \<Rightarrow> Inr l
        | None \<Rightarrow> Inl (Error ''ENOTDIR'')),
      fs_readFile = (\<lambda>t p. Inr [104, 105]),
      fs_readFileStream = None,
      encode_length = (\<lambda>bytes. Inr (length bytes)),
      utf8_decode = map (\<lambda>b. char_of b),
      MAX_PREVIEW_BYTES = 1000\<rparr>"

text \<open>A world in which every filesystem call fails.\<close>

definition failing_world :: world where
  "failing_world =
     \<lparr>fs_stat = (\<lambda>t p. Inl (Error ''ENOENT'')),
      fs_readDirectory = (\<lambda>t p. Inl (Error ''ENOENT'')),
      fs_readFile = (\<lambda>t p. Inl (Error ''ENOENT'')),
      fs_readFileStream = None,
      encode_length = (\<lambda>bytes. Inr (length bytes)),
      utf8_decode = map (\<lambda>b. char_of b),
      MAX_PREVIEW_BYTES = 1000\<rparr>"

definition initial_state :: state where
  "initial_state =
     \<lparr>ops = [], console = [], counter = None, isBinaryCache = [], tokenCache = [],
      ignoreParserCache = [], parsersCreated = 0\<rparr>"

text \<open>Two orders of resumption: always the first task that can go on, and each in turn.\<close>

definition sched_first :: "nat \<Rightarrow> nat" where
  "sched_first k = 0"

definition sched_turns :: "nat \<Rightarrow> nat" where
  "sched_turns k = k"

text \<open>Two matchers for the examples: one ignores nothing, one has the rule \<open>dist/\<close>.\<close>

definition ignores_nothing :: "string \<Rightarrow> bool" where
  "ignores_nothing p = False"

definition ignores_dist :: "string \<Rightarrow> bool" where
  "ignores_dist p = (p = ''dist/'')"




text \<open>A collation for the examples: by length, then byte by byte.\<close>

fun compareBytes :: "string \<Rightarrow> string \<Rightarrow> int" where
  "compareBytes [] [] = 0"
| "compareBytes [] (b # bs) = - 1"
| "compareBytes (a # as) [] = 1"
| "compareBytes (a # as) (b # bs) =
     (if (of_char a :: nat) < of_char b then - 1
      else if (of_char b :: nat) < of_char a then 1
      else compareBytes as bs)"

text \<open>Paths used as concrete cache keys: \<open>/a\<close>, \<open>/aa\<close>, \<open>/aaa\<close>, ...\<close>

definition key_of :: "nat \<Rightarrow> path" where
  "key_of n = [replicate (Suc n) (CHR ''a'')]"

section \<open>Facts about insertion-ordered maps\<close>

lemma Map_get_None_iff: "Map_get m k = None \<longleftrightarrow> k \<notin> fst ` set m"
  by (induction m) force+

lemma Map_set_fresh: "k \<notin> fst ` set m \<Longrightarrow> Map_set k v m = m @ [(k, v)]"
  by (induction m) auto

lemma Map_set_keys_present: "k \<in> fst ` set m \<Longrightarrow> map fst (Map_set k v m) = map fst m"
  by (induction m) force+


lemma Map_delete_absent: "k \<notin> fst ` set m \<Longrightarrow> Map_delete k m = m"
  by (induction m) auto

lemma fold_delete_prefix:
  "distinct (map fst (p @ r)) \<Longrightarrow> fold (\<lambda>(key, _). Map_delete key) p (p @ r) = r"
proof (induction p)
  case Nil
  then show ?case by simp
next
  case (Cons a p)
  obtain k v where a: "a = (k, v)" by (cases a)
  from Cons.prems have "distinct (map fst (p @ r))" by simp
  with Cons.IH show ?case by (simp add: a)
qed

lemma evict_snapshot:
  assumes "distinct (map fst m)"
  shows "fold (\<lambda>(key, _). Map_delete key) (take n m) m = drop n m"
proof -
  have "fold (\<lambda>(key, _). Map_delete key) (take n m) (take n m @ drop n m) = drop n m"
    by (rule fold_delete_prefix) (simp add: assms)
  then show ?thesis by simp
qed

lemma insert_all_generic:
  assumes ev: "\<And>c. distinct (map fst c) \<Longrightarrow> ev c = drop (length c - cap) c"
    and d: "distinct ks"
  shows "fold (\<lambda>k c. ev (Map_set k (v k) c)) ks [] =
         map (\<lambda>k. (k, v k)) (drop (length ks - cap) ks)"
  using d
proof (induction ks rule: rev_induct)
  case Nil
  then show ?case by simp
next
  case (snoc x xs)
  let ?f = "\<lambda>k. (k, v k)"
  let ?c = "map ?f (drop (length xs - cap) xs)"
  from snoc have IH: "fold (\<lambda>k c. ev (Map_set k (v k) c)) xs [] = ?c"
    and x: "x \<notin> set xs" and dx: "distinct xs"
    by simp_all
  have keys: "map fst ?c = drop (length xs - cap) xs" by (simp add: comp_def)
  have fresh: "x \<notin> fst ` set ?c"
    using x keys by (metis in_set_dropD list.set_map)
  have set: "Map_set x (v x) ?c = ?c @ [?f x]" using fresh by (rule Map_set_fresh)
  have dist: "distinct (map fst (?c @ [?f x]))"
    using dx x keys by (auto simp: comp_def dest: in_set_dropD)
  have "ev (?c @ [?f x]) = drop (length (?c @ [?f x]) - cap) (?c @ [?f x])"
    using dist by (rule ev)
  also have "\<dots> = map ?f (drop (length (xs @ [x]) - cap) (xs @ [x]))"
  proof (cases "length xs < cap")
    case True
    then show ?thesis by simp
  next
    case False
    then have "length xs - cap + 1 = length xs + 1 - cap" by simp
    with False show ?thesis by (cases cap) (simp_all add: drop_map Suc_diff_le)
  qed
  finally show ?case using IH set by simp
qed

lemma evictOldestCacheEntries_drop:
  "distinct (map fst c) \<Longrightarrow> evictOldestCacheEntries c = drop (length c - MAX_CACHE_SIZE) c"
  by (simp add: evictOldestCacheEntries_def evict_snapshot)

lemma evictOldestBinaryCacheEntries_drop:
  "distinct (map fst c) \<Longrightarrow>
   evictOldestBinaryCacheEntries c = drop (length c - MAX_BINARY_CACHE_SIZE) c"
  by (simp add: evictOldestBinaryCacheEntries_def evict_snapshot)

lemma tokenCacheInsertAll_eq:
  "distinct ks \<Longrightarrow>
   tokenCacheInsertAll v ks [] = map (\<lambda>k. (k, v k)) (drop (length ks - MAX_CACHE_SIZE) ks)"
  unfolding tokenCacheInsertAll_def
  by (rule insert_all_generic) (simp_all add: evictOldestCacheEntries_drop)

lemma binaryCacheInsertAll_eq:
  "distinct ks \<Longrightarrow>
   binaryCacheInsertAll v ks [] =
     map (\<lambda>k. (k, v k)) (drop (length ks - MAX_BINARY_CACHE_SIZE) ks)"
  unfolding binaryCacheInsertAll_def
  by (rule insert_all_generic) (simp_all add: evictOldestBinaryCacheEntries_drop)

lemma Map_get_map_pairs:
  "Map_get (map (\<lambda>k. (k, v k)) ks) k = (if k \<in> set ks then Some (v k) else None)"
  by (induction ks) auto

lemma key_of_eq_iff: "key_of a = key_of b \<longleftrightarrow> a = b"
  by (simp add: key_of_def)

lemma distinct_key_of: "distinct (map key_of [0..<n])"
  by (simp add: distinct_map inj_on_def key_of_eq_iff)

section \<open>Bounded caches\<close>

text \<open>
  C8. Both caches hold at most 5000 entries. After 5001 distinct keys have been inserted
  into an empty cache (each \<open>set\<close> followed by the eviction call, as in \<open>isBinary\<close> and
  \<open>countTokens\<close>), the first key inserted is absent, the other 5000 are present with the
  values stored for them, and the keys are kept in insertion order. The entries dropped
  are the first of the iteration order of the map, which a lookup never changes:
  \<open>Map_get\<close> returns a value and no new map.
\<close>

theorem bounded_cache_evicts_oldest_inserted:
  assumes "distinct ks" and "length ks = 5001"
  shows "Map_get (tokenCacheInsertAll v ks []) (hd ks) = None
       \<and> (\<forall>k \<in> set (tl ks). Map_get (tokenCacheInsertAll v ks []) k = Some (v k))
       \<and> Map_keys (tokenCacheInsertAll v ks []) = tl ks
       \<and> Map_get (binaryCacheInsertAll w ks []) (hd ks) = None
       \<and> (\<forall>k \<in> set (tl ks). Map_get (binaryCacheInsertAll w ks []) k = Some (w k))
       \<and> Map_keys (binaryCacheInsertAll w ks []) = tl ks"
proof -
  from assms(2) obtain k0 rest where ks: "ks = k0 # rest" by (cases ks) auto
  with assms have k0: "k0 \<notin> set rest" and len: "length rest = 5000" by auto
  have d: "drop (length ks - 5000) ks = rest" using ks len by simp
  have t: "tokenCacheInsertAll v ks [] = map (\<lambda>k. (k, v k)) rest"
    using tokenCacheInsertAll_eq [OF assms(1), of v] d by (simp add: MAX_CACHE_SIZE_def)
  have b: "binaryCacheInsertAll w ks [] = map (\<lambda>k. (k, w k)) rest"
    using binaryCacheInsertAll_eq [OF assms(1), of w] d
    by (simp add: MAX_BINARY_CACHE_SIZE_def)
  show ?thesis
    unfolding t b by (simp add: ks k0 Map_get_map_pairs Map_keys_def comp_def)
qed

theorem bounded_cache_evicts_oldest_inserted_witness:
  "distinct (map key_of [0..<5001]) \<and> length (map key_of [0..<5001]) = 5001
   \<and> Map_get (tokenCacheInsertAll (\<lambda>k. \<lparr>tokens = 1, tmtime = 0, tsize = 1\<rparr>)
        (map key_of [0..<5001]) []) (hd (map key_of [0..<5001])) = None
   \<and> Map_keys (binaryCacheInsertAll (\<lambda>k. \<lparr>isBinary_of = False, bmtime = 0\<rparr>)
        (map key_of [0..<5001]) []) = tl (map key_of [0..<5001])"
proof -
  have d: "distinct (map key_of [0..<5001])" by (rule distinct_key_of)
  have l: "length (map key_of [0..<5001]) = 5001" by simp
  show ?thesis
    using bounded_cache_evicts_oldest_inserted [OF d l] d l by blast
qed

text \<open>
  C10. Storing a value under a key that is already in a cache keeps the key where it is
  in the iteration order: the order is that of first insertion. Hence, in a full cache
  (5000 entries), the entry of the oldest key can be refreshed and still be the one that
  the next insertion of a new key evicts.
\<close>

theorem refreshed_entry_keeps_insertion_position:
  assumes "distinct (map fst tc)" and "length tc = 5000" and "k' \<notin> fst ` set tc"
    and "distinct (map fst bc)" and "length bc = 5000" and "k' \<notin> fst ` set bc"
  shows "(k \<in> fst ` set m \<longrightarrow> Map_keys (Map_set k v m) = Map_keys m)
       \<and> Map_keys (evictOldestCacheEntries (Map_set (fst (hd tc)) e tc)) = Map_keys tc
       \<and> Map_get (evictOldestCacheEntries (Map_set (fst (hd tc)) e tc)) (fst (hd tc)) = Some e
       \<and> Map_get (evictOldestCacheEntries (Map_set k' e'
            (evictOldestCacheEntries (Map_set (fst (hd tc)) e tc)))) (fst (hd tc)) = None
       \<and> Map_keys (evictOldestBinaryCacheEntries (Map_set (fst (hd bc)) b bc)) = Map_keys bc
       \<and> Map_get (evictOldestBinaryCacheEntries (Map_set k' b'
            (evictOldestBinaryCacheEntries (Map_set (fst (hd bc)) b bc)))) (fst (hd bc)) = None"
proof -
  have gen: "k \<in> fst ` set m \<longrightarrow> Map_keys (Map_set k v m) = Map_keys m"
    by (simp add: Map_keys_def Map_set_keys_present)
  from assms(2) obtain k0 v0 rest where tc: "tc = (k0, v0) # rest" by (cases tc) auto
  from assms(1,2,3) tc have k0: "k0 \<notin> fst ` set rest" and dr: "distinct (map fst rest)"
    and len: "length rest = 4999" and k': "k' \<noteq> k0" "k' \<notin> fst ` set rest"
    by auto
  have e1: "evictOldestCacheEntries ((k0, e) # rest) = (k0, e) # rest"
    by (simp add: evictOldestCacheEntries_def MAX_CACHE_SIZE_def len)
  have s2: "Map_set k' e' ((k0, e) # rest) = ((k0, e) # rest) @ [(k', e')]"
    by (rule Map_set_fresh) (use k' in auto)
  have d2: "distinct (map fst (((k0, e) # rest) @ [(k', e')]))"
    using k0 dr k' by auto
  have e2: "evictOldestCacheEntries (((k0, e) # rest) @ [(k', e')]) = rest @ [(k', e')]"
    using evictOldestCacheEntries_drop [OF d2] by (simp add: MAX_CACHE_SIZE_def len)
  have g: "Map_get (rest @ [(k', e')]) k0 = None"
    using k0 k' by (simp add: Map_get_None_iff)
  from assms(5) obtain j0 w0 brest where bc: "bc = (j0, w0) # brest"
    by (cases bc) auto
  from assms(4,5,6) bc have j0: "j0 \<notin> fst ` set brest" and dbr: "distinct (map fst brest)"
    and blen: "length brest = 4999" and j': "k' \<noteq> j0" "k' \<notin> fst ` set brest"
    by auto
  have b1: "evictOldestBinaryCacheEntries ((j0, b) # brest) = (j0, b) # brest"
    by (simp add: evictOldestBinaryCacheEntries_def MAX_BINARY_CACHE_SIZE_def blen)
  have bs2: "Map_set k' b' ((j0, b) # brest) = ((j0, b) # brest) @ [(k', b')]"
    by (rule Map_set_fresh) (use j' in auto)
  have bd2: "distinct (map fst (((j0, b) # brest) @ [(k', b')]))"
    using j0 dbr j' by auto
  have b2: "evictOldestBinaryCacheEntries (((j0, b) # brest) @ [(k', b')]) = brest @ [(k', b')]"
    using evictOldestBinaryCacheEntries_drop [OF bd2]
    by (simp add: MAX_BINARY_CACHE_SIZE_def blen)
  have bg: "Map_get (brest @ [(k', b')]) j0 = None"
    using j0 j' by (simp add: Map_get_None_iff)
  show ?thesis
    using gen e1 s2 e2 g b1 bs2 b2 bg by (simp add: tc bc Map_keys_def)
qed

theorem refreshed_entry_keeps_insertion_position_witness:
  "distinct (map fst (map (\<lambda>n. (key_of n, \<lparr>tokens = 1, tmtime = 0, tsize = 1\<rparr>)) [0..<5000]))
   \<and> key_of 5000 \<notin> fst ` set (map (\<lambda>n. (key_of n, \<lparr>tokens = 1, tmtime = 0, tsize = 1\<rparr>)) [0..<5000])
   \<and> Map_get (evictOldestCacheEntries (Map_set (key_of 5000) \<lparr>tokens = 3, tmtime = 2, tsize = 3\<rparr>
        (evictOldestCacheEntries (Map_set (key_of 0) \<lparr>tokens = 2, tmtime = 1, tsize = 2\<rparr>
          (map (\<lambda>n. (key_of n, \<lparr>tokens = 1, tmtime = 0, tsize = 1\<rparr>)) [0..<5000])))))
        (key_of 0) = None"
proof -
  let ?tc = "map (\<lambda>n. (key_of n, \<lparr>tokens = 1, tmtime = 0, tsize = 1\<rparr>)) [0..<5000]"
  let ?bc = "map (\<lambda>n. (key_of n, \<lparr>isBinary_of = False, bmtime = 0\<rparr>)) [0..<5000]"
  have kt: "map fst ?tc = map key_of [0..<5000]" and kb: "map fst ?bc = map key_of [0..<5000]"
    by (simp_all add: comp_def)
  have d1: "distinct (map fst ?tc)" and d2: "distinct (map fst ?bc)"
    unfolding kt kb by (rule distinct_key_of)+
  have l1: "length ?tc = 5000" and l2: "length ?bc = 5000" by simp_all
  have f: "key_of 5000 \<notin> set (map key_of [0..<5000])"
    by (auto simp: key_of_eq_iff)
  have f1: "key_of 5000 \<notin> fst ` set ?tc" and f2: "key_of 5000 \<notin> fst ` set ?bc"
    using f kt kb by (metis list.set_map)+
  have h: "fst (hd ?tc) = key_of 0"
    by (simp add: hd_map)
  have "Map_get (evictOldestCacheEntries (Map_set (key_of 5000) \<lparr>tokens = 3, tmtime = 2, tsize = 3\<rparr>
        (evictOldestCacheEntries (Map_set (fst (hd ?tc)) \<lparr>tokens = 2, tmtime = 1, tsize = 2\<rparr> ?tc))))
        (fst (hd ?tc)) = None"
    by (rule refreshed_entry_keeps_insertion_position [OF d1 l1 f1 d2 l2 f2,
          THEN conjunct2, THEN conjunct2, THEN conjunct2, THEN conjunct1])
  then have "Map_get (evictOldestCacheEntries (Map_set (key_of 5000) \<lparr>tokens = 3, tmtime = 2, tsize = 3\<rparr>
        (evictOldestCacheEntries (Map_set (key_of 0) \<lparr>tokens = 2, tmtime = 1, tsize = 2\<rparr> ?tc))))
        (key_of 0) = None"
    unfolding h .
  with d1 f1 show ?thesis by (intro conjI)
qed

section \<open>The limiter\<close>

lemma limiter_inv_createLimit: "limiter_inv c createLimit"
  by (simp add: limiter_inv_def createLimit_def)

lemma limiter_inv_limit: "limiter_inv c s \<Longrightarrow> limiter_inv c (limit c t s)"
  by (auto simp: limiter_inv_def limit_def run_def)

lemma limiter_inv_finish:
  assumes "limiter_inv c s" and "t \<in> set (active s)"
  shows "limiter_inv c (finish c t ok s)"
proof -
  from assms(2) have pos: "0 < length (active s)" by (cases "active s") auto
  with assms show ?thesis
    by (auto simp: limiter_inv_def finish_def run_def Let_def length_remove1)
qed

lemma limiter_inv_step: "limiter_inv c s \<Longrightarrow> limiter_inv c (step c ev s)"
  by (cases ev) (simp_all add: limiter_inv_limit limiter_inv_finish)

lemma limiter_inv_fold: "limiter_inv c s \<Longrightarrow> limiter_inv c (fold (step c) evs s)"
  by (induction evs arbitrary: s) (simp_all add: limiter_inv_step)

lemma limiter_inv_exec: "limiter_inv c (exec c evs)"
  unfolding exec_def by (rule limiter_inv_fold) (rule limiter_inv_createLimit)

lemma fifo_step:
  "limiter_inv c s \<Longrightarrow>
   started (step c ev s) @ queue (step c ev s) = started s @ queue s @ submitted [ev]"
  by (cases ev) (auto simp: limiter_inv_def limit_def run_def finish_def Let_def)

lemma submitted_append: "submitted (xs @ ys) = submitted xs @ submitted ys"
  by (induction xs rule: submitted.induct) simp_all

lemma fifo_fold:
  "limiter_inv c s \<Longrightarrow>
   started (fold (step c) evs s) @ queue (fold (step c) evs s)
     = started s @ queue s @ submitted evs"
proof (induction evs arbitrary: s)
  case Nil
  then show ?case by simp
next
  case (Cons ev evs)
  have "submitted (ev # evs) = submitted [ev] @ submitted evs"
    using submitted_append [of "[ev]" evs] by simp
  moreover have "limiter_inv c (step c ev s)"
    using Cons.prems by (rule limiter_inv_step)
  ultimately show ?case
    using Cons.prems by (simp add: Cons.IH fifo_step)
qed

lemma finish_starts_head:
  assumes "limiter_inv c s" and "t \<in> set (active s)" and "queue s \<noteq> []"
  shows "finish c t ok s =
         \<lparr>queue = tl (queue s), running = running s,
          active = remove1 t (active s) @ [hd (queue s)],
          started = started s @ [hd (queue s)], settled = settled s @ [(t, ok)]\<rparr>"
proof -
  from assms(2) have pos: "0 < length (active s)" by (cases "active s") auto
  with assms show ?thesis
    by (auto simp: limiter_inv_def finish_def run_def Let_def)
qed

lemma finish_frees_slot:
  assumes "limiter_inv c s" and "t \<in> set (active s)" and "queue s = []"
  shows "finish c t ok s =
         \<lparr>queue = [], running = running s - 1, active = remove1 t (active s),
          started = started s, settled = settled s @ [(t, ok)]\<rparr>"
  using assms by (simp add: limiter_inv_def finish_def Let_def)

lemma limit_free_slot:
  "running s < c \<Longrightarrow>
   limit c u s = s\<lparr>running := running s + 1, active := active s @ [u], started := started s @ [u]\<rparr>"
  by (simp add: limit_def run_def)

lemma limit_no_slot: "\<not> running s < c \<Longrightarrow> limit c u s = s\<lparr>queue := queue s @ [u]\<rparr>"
  by (simp add: limit_def)

text \<open>
  C6. For every sequence of events of a limiter created with concurrency \<open>N\<close>: the
  counter equals the number of tasks that are running and is at most \<open>N\<close>; the tasks
  started so far, followed by the queue, are the tasks submitted so far in submission
  order, so tasks start first-in first-out. When a running task settles, fulfilled or
  rejected alike, its slot is released: with a task waiting, the head of the queue is
  started at once in its place and the number running stays the same; with nothing
  waiting, the task leaves the running tasks, the counter goes down by one, and the
  next task submitted starts at once. A submitted task starts at once when the counter
  is below \<open>N\<close> and goes to the end of the queue otherwise.
\<close>

theorem limiter_bounded_fifo_releases_on_failure:
  "running (exec N evs) = length (active (exec N evs))
   \<and> length (active (exec N evs)) \<le> N
   \<and> started (exec N evs) @ queue (exec N evs) = submitted evs
   \<and> (\<forall>t ok. t \<in> set (active (exec N evs)) \<and> queue (exec N evs) \<noteq> [] \<longrightarrow>
        queue (exec N (evs @ [Settle t ok])) = tl (queue (exec N evs))
      \<and> started (exec N (evs @ [Settle t ok])) = started (exec N evs) @ [hd (queue (exec N evs))]
      \<and> hd (queue (exec N evs)) \<in> set (active (exec N (evs @ [Settle t ok])))
      \<and> settled (exec N (evs @ [Settle t ok])) = settled (exec N evs) @ [(t, ok)])
   \<and> (\<forall>t ok. t \<in> set (active (exec N evs)) \<and> queue (exec N evs) \<noteq> [] \<longrightarrow>
        running (exec N (evs @ [Settle t ok])) = running (exec N evs)
      \<and> active (exec N (evs @ [Settle t ok]))
          = remove1 t (active (exec N evs)) @ [hd (queue (exec N evs))])
   \<and> (\<forall>t ok. t \<in> set (active (exec N evs)) \<and> queue (exec N evs) = [] \<longrightarrow>
        exec N (evs @ [Settle t ok])
          = \<lparr>queue = [], running = running (exec N evs) - 1,
             active = remove1 t (active (exec N evs)),
             started = started (exec N evs),
             settled = settled (exec N evs) @ [(t, ok)]\<rparr>
      \<and> running (exec N (evs @ [Settle t ok])) < running (exec N evs)
      \<and> length (active (exec N (evs @ [Settle t ok]))) < length (active (exec N evs))
      \<and> (\<forall>u. active (exec N (evs @ [Settle t ok, Submit u]))
                = remove1 t (active (exec N evs)) @ [u]
             \<and> queue (exec N (evs @ [Settle t ok, Submit u])) = []))
   \<and> (\<forall>u. running (exec N evs) < N \<longrightarrow>
        exec N (evs @ [Submit u])
          = (exec N evs)\<lparr>running := running (exec N evs) + 1,
               active := active (exec N evs) @ [u],
               started := started (exec N evs) @ [u]\<rparr>)
   \<and> (\<forall>u. \<not> running (exec N evs) < N \<longrightarrow>
        exec N (evs @ [Submit u]) = (exec N evs)\<lparr>queue := queue (exec N evs) @ [u]\<rparr>)"
proof -
  let ?E = "exec N evs"
  have inv: "limiter_inv N ?E" by (rule limiter_inv_exec)
  have fifo: "started ?E @ queue ?E = submitted evs"
    unfolding exec_def using fifo_fold [OF limiter_inv_createLimit, of N evs]
    by (simp add: createLimit_def)
  have rel: "exec N (evs @ [Settle t ok]) = finish N t ok ?E"
    if "t \<in> set (active ?E)" for t ok
    using that by (simp add: exec_def)
  have sub: "exec N (evs @ [Submit u]) = limit N u ?E" for u
    by (simp add: exec_def)
  have part123: "running ?E = length (active ?E) \<and> length (active ?E) \<le> N
      \<and> started ?E @ queue ?E = submitted evs"
    using inv fifo by (simp add: limiter_inv_def)
  have part4: "\<forall>t ok. t \<in> set (active ?E) \<and> queue ?E \<noteq> [] \<longrightarrow>
        queue (exec N (evs @ [Settle t ok])) = tl (queue ?E)
      \<and> started (exec N (evs @ [Settle t ok])) = started ?E @ [hd (queue ?E)]
      \<and> hd (queue ?E) \<in> set (active (exec N (evs @ [Settle t ok])))
      \<and> settled (exec N (evs @ [Settle t ok])) = settled ?E @ [(t, ok)]"
    by (auto simp: rel finish_starts_head [OF inv])
  have part5: "\<forall>t ok. t \<in> set (active ?E) \<and> queue ?E \<noteq> [] \<longrightarrow>
        running (exec N (evs @ [Settle t ok])) = running ?E
      \<and> active (exec N (evs @ [Settle t ok])) = remove1 t (active ?E) @ [hd (queue ?E)]"
    by (auto simp: rel finish_starts_head [OF inv])
  have part6: "\<forall>t ok. t \<in> set (active ?E) \<and> queue ?E = [] \<longrightarrow>
        exec N (evs @ [Settle t ok])
          = \<lparr>queue = [], running = running ?E - 1, active = remove1 t (active ?E),
             started = started ?E, settled = settled ?E @ [(t, ok)]\<rparr>
      \<and> running (exec N (evs @ [Settle t ok])) < running ?E
      \<and> length (active (exec N (evs @ [Settle t ok]))) < length (active ?E)
      \<and> (\<forall>u. active (exec N (evs @ [Settle t ok, Submit u])) = remove1 t (active ?E) @ [u]
             \<and> queue (exec N (evs @ [Settle t ok, Submit u])) = [])"
  proof (intro allI impI)
    fix t ok
    assume h: "t \<in> set (active ?E) \<and> queue ?E = []"
    then have t: "t \<in> set (active ?E)" and q: "queue ?E = []" by simp_all
    let ?F = "\<lparr>queue = [], running = running ?E - 1, active = remove1 t (active ?E),
             started = started ?E, settled = settled ?E @ [(t, ok)]\<rparr>"
    have e: "exec N (evs @ [Settle t ok]) = ?F"
      using rel [OF t] finish_frees_slot [OF inv t q] by simp
    from t have pos: "0 < length (active ?E)" by (cases "active ?E") auto
    with inv have rpos: "0 < running ?E" and rle: "running ?E \<le> N"
      by (simp_all add: limiter_inv_def)
    have free: "running ?F < N" using rpos rle by simp
    have two: "exec N (evs @ [Settle t ok, Submit u]) = limit N u ?F" for u
    proof -
      have "exec N (evs @ [Settle t ok, Submit u]) = limit N u (exec N (evs @ [Settle t ok]))"
        by (simp add: exec_def)
      then show ?thesis by (simp only: e)
    qed
    have after: "active (limit N u ?F) = remove1 t (active ?E) @ [u] \<and> queue (limit N u ?F) = []"
      for u
      using limit_free_slot [OF free, of u] by simp
    show "exec N (evs @ [Settle t ok]) = ?F
      \<and> running (exec N (evs @ [Settle t ok])) < running ?E
      \<and> length (active (exec N (evs @ [Settle t ok]))) < length (active ?E)
      \<and> (\<forall>u. active (exec N (evs @ [Settle t ok, Submit u])) = remove1 t (active ?E) @ [u]
             \<and> queue (exec N (evs @ [Settle t ok, Submit u])) = [])"
      using e rpos pos t after two by (simp add: length_remove1)
  qed
  have part7: "\<forall>u. running ?E < N \<longrightarrow>
        exec N (evs @ [Submit u])
          = ?E\<lparr>running := running ?E + 1, active := active ?E @ [u],
               started := started ?E @ [u]\<rparr>"
    by (simp add: sub limit_free_slot)
  have part8: "\<forall>u. \<not> running ?E < N \<longrightarrow>
        exec N (evs @ [Submit u]) = ?E\<lparr>queue := queue ?E @ [u]\<rparr>"
    by (simp add: sub limit_no_slot)
  from part123 part4 part5 part6 part7 part8 show ?thesis by blast
qed

theorem limiter_bounded_fifo_releases_on_failure_witness:
  "active (exec 2 [Submit (11::nat), Submit 12, Submit 13, Submit 14]) = [11, 12]
   \<and> queue (exec 2 [Submit (11::nat), Submit 12, Submit 13, Submit 14]) = [13, 14]
   \<and> queue (exec 2 ([Submit (11::nat), Submit 12, Submit 13, Submit 14] @ [Settle 11 False])) = [14]
   \<and> started (exec 2 ([Submit (11::nat), Submit 12, Submit 13, Submit 14] @ [Settle 11 False]))
       = [11, 12, 13]
   \<and> active (exec 1 [Submit (11::nat)]) = [11]
   \<and> queue (exec 1 [Submit (11::nat)]) = []
   \<and> active (exec 1 ([Submit (11::nat)] @ [Settle 11 False, Submit 12])) = [12]
   \<and> queue (exec 1 ([Submit (11::nat)] @ [Settle 11 False, Submit 12])) = []"
proof -
  let ?evs = "[Submit (11::nat), Submit 12, Submit 13, Submit 14]"
  have a: "active (exec 2 ?evs) = [11, 12]" and q: "queue (exec 2 ?evs) = [13, 14]"
    and st: "started (exec 2 ?evs) = [11, 12]"
    by (simp_all add: exec_def createLimit_def limit_def run_def)
  have pre: "11 \<in> set (active (exec 2 ?evs)) \<and> queue (exec 2 ?evs) \<noteq> []"
    by (simp add: a q)
  from limiter_bounded_fifo_releases_on_failure [of 2 ?evs, THEN conjunct2, THEN conjunct2,
      THEN conjunct2, THEN conjunct1, rule_format, OF pre, of False]
  have one: "queue (exec 2 (?evs @ [Settle 11 False])) = tl (queue (exec 2 ?evs))
      \<and> started (exec 2 (?evs @ [Settle 11 False])) = started (exec 2 ?evs) @ [hd (queue (exec 2 ?evs))]"
    by blast
  have a1: "active (exec 1 [Submit (11::nat)]) = [11]" and q1: "queue (exec 1 [Submit (11::nat)]) = []"
    by (simp_all add: exec_def createLimit_def limit_def run_def)
  have pre1: "11 \<in> set (active (exec 1 [Submit (11::nat)])) \<and> queue (exec 1 [Submit (11::nat)]) = []"
    using a1 q1 by simp
  from limiter_bounded_fifo_releases_on_failure [of 1 "[Submit (11::nat)]", THEN conjunct2,
      THEN conjunct2, THEN conjunct2, THEN conjunct2, THEN conjunct2, THEN conjunct1,
      rule_format, OF pre1, of False]
  have two: "active (exec 1 ([Submit (11::nat)] @ [Settle 11 False, Submit 12]))
               = remove1 11 (active (exec 1 [Submit (11::nat)])) @ [12]
      \<and> queue (exec 1 ([Submit (11::nat)] @ [Settle 11 False, Submit 12])) = []"
    by blast
  from one two a q st a1 q1 show ?thesis by simp
qed

section \<open>The cap of collectFiles\<close>

lemma counter_stat [simp]: "stat w p s = (r, s') \<Longrightarrow> counter s' = counter s"
  by (auto simp: stat_def)

lemma counter_readDirectory [simp]:
  "readDirectory w p s = (r, s') \<Longrightarrow> counter s' = counter s"
  by (auto simp: readDirectory_def)

lemma counter_warn [simp]: "counter (warn d s) = counter s"
  by (simp add: warn_def)

lemma collect_counter:
  "collectFiles fuel w ign root sig maxFiles uri s = (r, s') \<Longrightarrow> maxFiles = Some N \<Longrightarrow>
   counter s = Some c \<Longrightarrow>
     (\<exists>c'. counter s' = Some c' \<and> c \<le> c' \<and> c' \<le> max c N
        \<and> (\<forall>ps. r = Some (Inr ps) \<longrightarrow> int (length ps) = c' - c))"
  "collectChildren fuel w ign root sig maxFiles uri names out s = (r, s') \<Longrightarrow>
   maxFiles = Some N \<Longrightarrow> counter s = Some c \<Longrightarrow>
     (\<exists>c'. counter s' = Some c' \<and> c \<le> c' \<and> c' \<le> max c N
        \<and> (\<forall>ps. r = Some (Inr ps) \<longrightarrow> int (length ps) = int (length out) + (c' - c)))"
proof (induction fuel w ign root sig maxFiles uri s
    and fuel w ign root sig maxFiles uri names out s
    arbitrary: r s' c and r s' c rule: collectFiles_collectChildren.induct)
  case (1 w ignores root signal maxFiles uri s)
  then show ?case by simp
next
  case (2 fuel w ignores root signal maxFiles uri s)
  show ?case
  proof (cases "aborted signal s")
    case True
    with 2 show ?thesis by auto
  next
    case na: False
    obtain r1 s1 where st: "stat w uri s = (r1, s1)" by (cases "stat w uri s")
    then have c1: "counter s1 = Some c" using "2.prems" by simp
    show ?thesis
    proof (cases r1)
      case (Inl e)
      with 2 na st c1 show ?thesis by auto
    next
      case (Inr fs)
      show ?thesis
      proof (cases "ftype fs = FileType_Directory")
        case dir: True
        let ?rel = "slashJoin (relative root uri)"
        let ?relDir = "if ?rel = [] then None else Some (?rel @ ''/'')"
        show ?thesis
        proof (cases "(case ?relDir of None \<Rightarrow> False | Some d \<Rightarrow> ignores d)
                        \<or> aborted signal s1")
          case True
          with "2.prems" na st Inr dir c1 show ?thesis
            by (auto simp: Let_def split: if_splits)
        next
          case go: False
          obtain r2 s2 where rd: "readDirectory w uri s1 = (r2, s2)"
            by (cases "readDirectory w uri s1")
          then have c2: "counter s2 = Some c" using c1 by simp
          show ?thesis
          proof (cases r2)
            case (Inl e)
            with "2.prems" na st Inr dir go rd c2 show ?thesis
              by (auto simp: Let_def split: if_splits)
          next
            case ch: (Inr children)
            have res: "collectChildren fuel w ignores root signal maxFiles uri
                         (map fst children) [] s2 = (r, s')"
              using "2.prems"(1) na st Inr dir go rd ch
              by (auto simp: Let_def split: if_splits)
            from go have g1: "\<not> (case ?relDir of None \<Rightarrow> False | Some d \<Rightarrow> ignores d)"
              and g2: "\<not> aborted signal s1" by auto
            from "2.IH" [OF na refl st [symmetric] Inr dir refl g1 g2 rd [symmetric] ch res
                "2.prems"(2) c2]
            show ?thesis by simp
          qed
        qed
      next
        case False
        with "2.prems" na st Inr c1 show ?thesis
          by (auto simp: Let_def split: if_splits option.splits)
      qed
    qed
  qed
next
  case (3 fuel w ignores root signal maxFiles uri out s)
  then show ?case by auto
next
  case (4 fuel w ignores root signal maxFiles uri name names out s)
  show ?case
  proof (cases "aborted signal s \<or> capReached maxFiles s")
    case True
    with "4.prems" show ?thesis by (auto split: if_splits)
  next
    case go: False
    then have g1: "\<not> aborted signal s" and g2: "\<not> capReached maxFiles s" by auto
    obtain r1 s1
      where cf: "collectFiles fuel w ignores root signal maxFiles (joinPath uri name) s = (r1, s1)"
      by (cases "collectFiles fuel w ignores root signal maxFiles (joinPath uri name) s")
    from "4.IH"(1) [OF g1 g2 refl cf "4.prems"(2,3)]
    obtain c1 where c1: "counter s1 = Some c1" "c \<le> c1" "c1 \<le> max c N"
      and len1: "\<And>ps. r1 = Some (Inr ps) \<Longrightarrow> int (length ps) = c1 - c"
      by blast
    show ?thesis
    proof (cases r1)
      case None
      with "4.prems" g1 g2 cf c1 show ?thesis by (auto simp: Let_def)
    next
      case (Some a)
      show ?thesis
      proof (cases a)
        case (Inl e)
        with "4.prems" g1 g2 cf c1 Some show ?thesis by (auto simp: Let_def)
      next
        case (Inr nested)
        have res: "collectChildren fuel w ignores root signal maxFiles uri names
                     (out @ nested) s1 = (r, s')"
          using "4.prems"(1) g1 g2 cf Some Inr by (simp add: Let_def)
        from "4.IH"(2) [OF g1 g2 refl cf [symmetric] _ _ res "4.prems"(2) c1(1)] Some Inr
        obtain c' where c': "counter s' = Some c'" "c1 \<le> c'" "c' \<le> max c1 N"
          and len: "\<And>ps. r = Some (Inr ps) \<Longrightarrow>
                      int (length ps) = int (length (out @ nested)) + (c' - c1)"
          by blast
        have "int (length nested) = c1 - c" using len1 Some Inr by simp
        with c' c1 len show ?thesis by auto
      qed
    qed
  qed
qed

text \<open>
  C2. One call of \<open>collectFiles\<close> with cap \<open>N\<close> and a counter object that stands at \<open>c\<close>:
  whatever the tree, the matcher, the signal and the failures of the filesystem, and
  however far the traversal gets (also when it is cut off or throws), the counter only
  grows, never beyond \<open>N\<close> (it stays at \<open>c\<close> when \<open>c\<close> is already \<open>N\<close> or more), and a
  call that returns has returned exactly as many paths as it has added to the counter.
  With the fresh counter \<open>c = 0\<close> of the callers these are at most \<open>N\<close> paths.
\<close>

theorem collectFiles_never_exceeds_cap:
  assumes "collectFiles fuel w ignores root signal (Some N) uri s = (r, s')"
    and "counter s = Some c"
  shows "\<exists>c'. counter s' = Some c' \<and> c \<le> c' \<and> c' \<le> max c N
           \<and> (\<forall>ps. r = Some (Inr ps) \<longrightarrow>
                 int (length ps) = c' - c \<and> int (length ps) \<le> max 0 (N - c))"
proof -
  from collect_counter(1) [OF assms(1) refl assms(2)]
  obtain c' where "counter s' = Some c'" "c \<le> c'" "c' \<le> max c N"
    and "\<forall>ps. r = Some (Inr ps) \<longrightarrow> int (length ps) = c' - c"
    by blast
  then show ?thesis by auto
qed

theorem collectFiles_never_exceeds_cap_witness:
  "collectFiles 3 tree_world ignores_nothing [''r''] None (Some 2) [''r'']
       (initial_state\<lparr>counter := Some 0\<rparr>)
     = (Some (Inr [[''r'', ''a'', ''f1''], [''r'', ''a'', ''f2'']]),
        initial_state\<lparr>counter := Some 2,
          ops := [Stat [''r''], ReadDirectory [''r''], Stat [''r'', ''a''],
                  ReadDirectory [''r'', ''a''], Stat [''r'', ''a'', ''f1''],
                  Stat [''r'', ''a'', ''f2'']],
          console := [Warn_collectFiles_hit_cap 2]\<rparr>)
   \<and> (\<exists>c'. counter (snd (collectFiles 3 tree_world ignores_nothing [''r''] None (Some 2) [''r'']
                 (initial_state\<lparr>counter := Some 0\<rparr>))) = Some c' \<and> c' \<le> max 0 2)"
proof -
  have ev: "collectFiles 3 tree_world ignores_nothing [''r''] None (Some 2) [''r'']
       (initial_state\<lparr>counter := Some 0\<rparr>)
     = (Some (Inr [[''r'', ''a'', ''f1''], [''r'', ''a'', ''f2'']]),
        initial_state\<lparr>counter := Some 2,
          ops := [Stat [''r''], ReadDirectory [''r''], Stat [''r'', ''a''],
                  ReadDirectory [''r'', ''a''], Stat [''r'', ''a'', ''f1''],
                  Stat [''r'', ''a'', ''f2'']],
          console := [Warn_collectFiles_hit_cap 2]\<rparr>)"
    by code_simp
  have c0: "counter (initial_state\<lparr>counter := Some 0\<rparr>) = Some 0" by simp
  from collectFiles_never_exceeds_cap [OF ev c0] ev show ?thesis by auto
qed


text \<open>
  C9. The cap diagnostic is meant to be logged once per traversal. The counter stays at
  the cap once it has reached it, so the test \<open>counter.count === maxFiles\<close> holds in the
  loop of every directory that still has a child left, and each of them logs. With cap 1
  on the example tree, the loop over \<open>/r/a\<close> logs when it comes to \<open>f2\<close> and the loop
  over \<open>/r\<close> logs again when it comes to \<open>b\<close>.
\<close>

theorem collectFiles_cap_diagnostic_logged_per_directory:
  "collectFiles 3 tree_world ignores_nothing [''r''] None (Some 1) [''r'']
       (initial_state\<lparr>counter := Some 0\<rparr>)
     = (Some (Inr [[''r'', ''a'', ''f1'']]),
        initial_state\<lparr>counter := Some 1,
          ops := [Stat [''r''], ReadDirectory [''r''], Stat [''r'', ''a''],
                  ReadDirectory [''r'', ''a''], Stat [''r'', ''a'', ''f1'']],
          console := [Warn_collectFiles_hit_cap 1, Warn_collectFiles_hit_cap 1]\<rparr>)"
  by code_simp


section \<open>Pruning of ignored directories\<close>

lemma collect_under:
  "collectFiles fuel w ign root sig maxFiles uri s = (Some (Inr ps), s') \<Longrightarrow>
     \<forall>p \<in> set ps. \<exists>segs. p = uri @ segs \<and> (\<forall>n < length segs. \<not> ignoredDir ign root (uri @ take n segs))"
  "collectChildren fuel w ign root sig maxFiles uri names out s = (Some (Inr ps), s') \<Longrightarrow>
     \<not> ignoredDir ign root uri \<Longrightarrow>
     \<forall>p \<in> set ps. p \<in> set out \<or> (\<exists>segs. p = uri @ segs \<and> (\<forall>n < length segs. \<not> ignoredDir ign root (uri @ take n segs)))"
proof (induction fuel w ign root sig maxFiles uri s
    and fuel w ign root sig maxFiles uri names out s
    arbitrary: ps s' and ps s' rule: collectFiles_collectChildren.induct)
  case (1 w ignores root signal maxFiles uri s)
  then show ?case by simp
next
  case (2 fuel w ignores root signal maxFiles uri s)
  show ?case
  proof (cases "aborted signal s")
    case True
    with 2 show ?thesis by auto
  next
    case na: False
    obtain r1 s1 where st: "stat w uri s = (r1, s1)" by (cases "stat w uri s")
    show ?thesis
    proof (cases r1)
      case (Inl e)
      with 2 na st show ?thesis by auto
    next
      case (Inr fs)
      show ?thesis
      proof (cases "ftype fs = FileType_Directory")
        case dir: True
        let ?rel = "slashJoin (relative root uri)"
        let ?relDir = "if ?rel = [] then None else Some (?rel @ ''/'')"
        show ?thesis
        proof (cases "(case ?relDir of None \<Rightarrow> False | Some d \<Rightarrow> ignores d)
                        \<or> aborted signal s1")
          case True
          with "2.prems" na st Inr dir show ?thesis
            by (auto simp: Let_def split: if_splits)
        next
          case go: False
          obtain r2 s2 where rd: "readDirectory w uri s1 = (r2, s2)"
            by (cases "readDirectory w uri s1")
          show ?thesis
          proof (cases r2)
            case (Inl e)
            with "2.prems" na st Inr dir go rd show ?thesis
              by (auto simp: Let_def split: if_splits)
          next
            case ch: (Inr children)
            have res: "collectChildren fuel w ignores root signal maxFiles uri
                         (map fst children) [] s2 = (Some (Inr ps), s')"
              using "2.prems"(1) na st Inr dir go rd ch
              by (auto simp: Let_def split: if_splits)
            from go have g1: "\<not> (case ?relDir of None \<Rightarrow> False | Some d \<Rightarrow> ignores d)"
              and g2: "\<not> aborted signal s1" by auto
            from g1 have ni: "\<not> ignoredDir ignores root uri"
              by (auto simp: ignoredDir_def split: if_splits)
            from "2.IH" [OF na refl st [symmetric] Inr dir refl g1 g2 rd [symmetric] ch res ni]
            show ?thesis by simp
          qed
        qed
      next
        case False
        with "2.prems" na st Inr show ?thesis
          by (auto simp: Let_def split: if_splits option.splits)
      qed
    qed
  qed
next
  case (3 fuel w ignores root signal maxFiles uri out s)
  then show ?case by auto
next
  case (4 fuel w ignores root signal maxFiles uri name names out s)
  show ?case
  proof (cases "aborted signal s \<or> capReached maxFiles s")
    case True
    with "4.prems" show ?thesis by (auto split: if_splits)
  next
    case go: False
    then have g1: "\<not> aborted signal s" and g2: "\<not> capReached maxFiles s" by auto
    obtain r1 s1
      where cf: "collectFiles fuel w ignores root signal maxFiles (joinPath uri name) s = (r1, s1)"
      by (cases "collectFiles fuel w ignores root signal maxFiles (joinPath uri name) s")
    show ?thesis
    proof (cases r1)
      case None
      with "4.prems" g1 g2 cf show ?thesis by (auto simp: Let_def)
    next
      case (Some a)
      show ?thesis
      proof (cases a)
        case (Inl e)
        with "4.prems" g1 g2 cf Some show ?thesis by (auto simp: Let_def)
      next
        case (Inr nested)
        have cf': "collectFiles fuel w ignores root signal maxFiles (joinPath uri name) s = (Some (Inr nested), s1)"
          using cf Some Inr by simp
        have res: "collectChildren fuel w ignores root signal maxFiles uri names
                     (out @ nested) s1 = (Some (Inr ps), s')"
          using "4.prems"(1) g1 g2 cf Some Inr by (simp add: Let_def)
        note A = "4.IH"(1) [OF g1 g2 refl cf']
        note B = "4.IH"(2) [OF g1 g2 refl cf [symmetric] Some Inr res "4.prems"(2)]
        show ?thesis
        proof
          fix p assume "p \<in> set ps"
          with B have "p \<in> set out \<or> p \<in> set nested \<or> (\<exists>segs. p = uri @ segs \<and> (\<forall>n < length segs. \<not> ignoredDir ignores root (uri @ take n segs)))"
            by auto
          moreover {
            assume "p \<in> set nested"
            with A obtain segs where p: "p = joinPath uri name @ segs"
              and ns: "\<forall>n < length segs. \<not> ignoredDir ignores root (joinPath uri name @ take n segs)"
              by blast
            have "p = uri @ (name # segs)" using p by (simp add: joinPath_def)
            moreover have "\<not> ignoredDir ignores root (uri @ take n (name # segs))" if "n < length (name # segs)" for n
            proof (cases n)
              case 0
              then show ?thesis using "4.prems"(2) by simp
            next
              case (Suc m)
              with that ns show ?thesis by (simp add: joinPath_def)
            qed
            ultimately have "\<exists>segs. p = uri @ segs \<and> (\<forall>n < length segs. \<not> ignoredDir ignores root (uri @ take n segs))"
              by blast
          }
          ultimately show "p \<in> set out \<or> (\<exists>segs. p = uri @ segs \<and> (\<forall>n < length segs. \<not> ignoredDir ignores root (uri @ take n segs)))"
            by blast
        qed
      qed
    qed
  qed
qed

lemma collectFiles_ignored_directory:
  assumes "fs_stat w (length (ops s)) d = Inr st" and "ftype st = FileType_Directory"
    and "ignoredDir ignores root d"
  shows "collectFiles (Suc fuel) w ignores root signal maxFiles d s
           = (Some (Inr []), s\<lparr>ops := ops s @ (if aborted signal s then [] else [Stat d])\<rparr>)"
  using assms by (simp add: ignoredDir_def stat_def Let_def)

text \<open>
  C3. Let \<open>d\<close> be a directory whose path relative to the root is not empty and, with a
  slash appended, matches the matcher. A call of \<open>collectFiles\<close> on \<open>d\<close> returns the
  empty list, and the only filesystem call it makes is the \<open>stat\<close> of \<open>d\<close> itself (none
  at all when the signal is set): nothing beneath \<open>d\<close> is listed or statted. And in the
  result of a traversal started at any \<open>uri\<close> above \<open>d\<close> there is no path beneath \<open>d\<close>.
\<close>

theorem ignored_directory_is_pruned:
  assumes "ignoredDir ignores root d"
  shows "(fs_stat w (length (ops s)) d = Inr st \<and> ftype st = FileType_Directory \<longrightarrow>
            collectFiles (Suc fuel) w ignores root signal maxFiles d s
              = (Some (Inr []), s\<lparr>ops := ops s @ (if aborted signal s then [] else [Stat d])\<rparr>))
       \<and> (collectFiles fuel' w' ignores root signal' maxFiles' uri s0 = (Some (Inr ps), s')
            \<and> d = uri @ ds \<and> rest \<noteq> [] \<longrightarrow> d @ rest \<notin> set ps)"
proof (intro conjI impI)
  assume h: "fs_stat w (length (ops s)) d = Inr st \<and> ftype st = FileType_Directory"
  show "collectFiles (Suc fuel) w ignores root signal maxFiles d s
      = (Some (Inr []), s\<lparr>ops := ops s @ (if aborted signal s then [] else [Stat d])\<rparr>)"
    by (rule collectFiles_ignored_directory [OF conjunct1 [OF h] conjunct2 [OF h] assms])
next
  assume a: "collectFiles fuel' w' ignores root signal' maxFiles' uri s0 = (Some (Inr ps), s')
               \<and> d = uri @ ds \<and> rest \<noteq> []"
  show "d @ rest \<notin> set ps"
  proof
    assume "d @ rest \<in> set ps"
    with collect_under(1) a obtain segs where eq: "d @ rest = uri @ segs"
      and ns: "\<forall>n < length segs. \<not> ignoredDir ignores root (uri @ take n segs)"
      by blast
    from eq a have segs: "segs = ds @ rest" by simp
    with a have "length ds < length segs" by simp
    with ns have "\<not> ignoredDir ignores root (uri @ take (length ds) segs)" by blast
    with segs a assms show False by simp
  qed
qed

theorem ignored_directory_is_pruned_witness:
  "ignoredDir ignores_dist [''r''] [''r'', ''dist'']
   \<and> collectFiles 4 tree_world ignores_dist [''r''] None None [''r''] initial_state
     = (Some (Inr [[''r'', ''a'', ''f1''], [''r'', ''a'', ''f2''], [''r'', ''b'']]),
        initial_state\<lparr>ops := [Stat [''r''], ReadDirectory [''r''], Stat [''r'', ''a''],
                  ReadDirectory [''r'', ''a''], Stat [''r'', ''a'', ''f1''],
                  Stat [''r'', ''a'', ''f2''], Stat [''r'', ''b''], Stat [''r'', ''dist'']]\<rparr>)
   \<and> [''r'', ''dist''] @ [''sub'', ''b.txt'']
       \<notin> set [[''r'', ''a'', ''f1''], [''r'', ''a'', ''f2''], [''r'', ''b'']]"
proof -
  have ig: "ignoredDir ignores_dist [''r''] [''r'', ''dist'']"
    by (simp add: ignoredDir_def ignores_dist_def)
  have ev: "collectFiles 4 tree_world ignores_dist [''r''] None None [''r''] initial_state
     = (Some (Inr [[''r'', ''a'', ''f1''], [''r'', ''a'', ''f2''], [''r'', ''b'']]),
        initial_state\<lparr>ops := [Stat [''r''], ReadDirectory [''r''], Stat [''r'', ''a''],
                  ReadDirectory [''r'', ''a''], Stat [''r'', ''a'', ''f1''],
                  Stat [''r'', ''a'', ''f2''], Stat [''r'', ''b''], Stat [''r'', ''dist'']]\<rparr>)"
    by code_simp
  have "[''r'', ''dist''] = [''r''] @ [''dist''] \<and> [''sub'', ''b.txt''] \<noteq> []" by simp
  with ignored_directory_is_pruned [OF ig, THEN conjunct2, rule_format, of 4 tree_world None None
      "[''r'']" initial_state _ _ "[''dist'']" "[''sub'', ''b.txt'']"] ev
  have "[''r'', ''dist''] @ [''sub'', ''b.txt'']
       \<notin> set [[''r'', ''a'', ''f1''], [''r'', ''a'', ''f2''], [''r'', ''b'']]"
    by blast
  with ig ev show ?thesis by (intro conjI)
qed


section \<open>Failures of the filesystem\<close>


lemma countTokensTask_returns: "\<exists>n. fst (countTokensTask w signal p s) = Inr n"
  by (auto simp: countTokensTask_def split: prod.splits sum.splits)






declare runBatch.simps [simp del]











lemma countTokensTask_stat_failure:
  "fs_stat w (length (ops s)) p = Inl e \<Longrightarrow> fst (countTokensTask w signal p s) = Inr 0"
  by (simp add: countTokensTask_def countTokensBody_def stat_def)

lemma isBinary_read_failure:
  "fs_stat w (length (ops s)) p = Inl e \<Longrightarrow> fs_readFileStream w = None \<Longrightarrow>
   fs_readFile w (Suc (length (ops s))) p = Inl e' \<Longrightarrow>
   isBinary w p s = (Inr True, s\<lparr>ops := ops s @ [Stat p, ReadFile p]\<rparr>)"
  by (simp add: isBinary_def binaryCheck_def stat_def readFile_def cacheBinary_def)









text \<open>
  Two files counted by one call on the example tree, with two orders of resumption:
  always the first task that can be resumed, and the tasks in turn. Either way both
  \<open>stat\<close> calls are made before any task is resumed.
\<close>

lemma countTokens_two_files_first_ready:
  "countTokens tree_world None sched_first [[''r'', ''b''], [''r'', ''a'', ''f1'']] initial_state
   = (Some (Inr 4),
      initial_state\<lparr>ops :=
           [Stat [''r'', ''b''], Stat [''r'', ''a'', ''f1''], Stat [''r'', ''b''],
            ReadFile [''r'', ''b''], ReadFile [''r'', ''b''],
            Stat [''r'', ''a'', ''f1''], ReadFile [''r'', ''a'', ''f1''],
            ReadFile [''r'', ''a'', ''f1'']],
         console := [Log_countTokens_start 2, Log_countTokens_done 4],
         isBinaryCache :=
           [([''r'', ''b''], \<lparr>isBinary_of = False, bmtime = 1\<rparr>),
            ([''r'', ''a'', ''f1''], \<lparr>isBinary_of = False, bmtime = 1\<rparr>)],
         tokenCache :=
           [([''r'', ''b''], \<lparr>tokens = 2, tmtime = 1, tsize = 2\<rparr>),
            ([''r'', ''a'', ''f1''], \<lparr>tokens = 2, tmtime = 1, tsize = 2\<rparr>)]\<rparr>)"
  by code_simp

lemma countTokens_two_files_in_turn:
  "countTokens tree_world None sched_turns [[''r'', ''b''], [''r'', ''a'', ''f1'']] initial_state
   = (Some (Inr 4),
      initial_state\<lparr>ops :=
           [Stat [''r'', ''b''], Stat [''r'', ''a'', ''f1''], Stat [''r'', ''b''],
            Stat [''r'', ''a'', ''f1''], ReadFile [''r'', ''b''],
            ReadFile [''r'', ''a'', ''f1''], ReadFile [''r'', ''b''],
            ReadFile [''r'', ''a'', ''f1'']],
         console := [Log_countTokens_start 2, Log_countTokens_done 4],
         isBinaryCache :=
           [([''r'', ''b''], \<lparr>isBinary_of = False, bmtime = 1\<rparr>),
            ([''r'', ''a'', ''f1''], \<lparr>isBinary_of = False, bmtime = 1\<rparr>)],
         tokenCache :=
           [([''r'', ''b''], \<lparr>tokens = 2, tmtime = 1, tsize = 2\<rparr>),
            ([''r'', ''a'', ''f1''], \<lparr>tokens = 2, tmtime = 1, tsize = 2\<rparr>)]\<rparr>)"
  by code_simp

section \<open>The matcher cache\<close>

lemma getIgnoreParser_absent:
  "fs_stat w (length (ops s)) (joinPath root ''.gitignore'') = Inl e \<Longrightarrow>
   getIgnoreParser w root s =
     (Inr \<lparr>ident = parsersCreated s, added = DEFAULT_IGNORE_PATTERNS\<rparr>,
      s\<lparr>ops := ops s @ [Stat (joinPath root ''.gitignore'')],
        console := console s @ [Log_getIgnoreParser_none root],
        parsersCreated := parsersCreated s + 1\<rparr>)"
  by (simp add: getIgnoreParser_def getIgnoreParserBody_def stat_def warn_def ignore_def
      add_def Let_def)

text \<open>
  C5, as stated, fails: with no ignore-file, two calls in a row for the same root give
  two matcher objects (\<open>ident\<close> 0 and 1), and nothing is put into the cache.
\<close>

theorem getIgnoreParser_absent_file_builds_anew:
  "fst (getIgnoreParser failing_world [''r''] initial_state)
     = Inr \<lparr>ident = 0, added = [''.git/'', ''.git'']\<rparr>
   \<and> fst (getIgnoreParser failing_world [''r'']
          (snd (getIgnoreParser failing_world [''r''] initial_state)))
     = Inr \<lparr>ident = 1, added = [''.git/'', ''.git'']\<rparr>
   \<and> ignoreParserCache (snd (getIgnoreParser failing_world [''r'']
          (snd (getIgnoreParser failing_world [''r''] initial_state)))) = []"
  by code_simp

text \<open>
  C5, amended. When the \<open>stat\<close> of the ignore-file fails, \<open>getIgnoreParser\<close> returns a
  matcher that holds only the default patterns; it is a new object at every call, and
  the cache is left as it was (only the log of filesystem calls, the console and the
  count of matcher objects change).
\<close>

theorem getIgnoreParser_absent_file_default_only_uncached:
  assumes "fs_stat w (length (ops s)) (joinPath root ''.gitignore'') = Inl e"
  shows "getIgnoreParser w root s =
     (Inr \<lparr>ident = parsersCreated s, added = DEFAULT_IGNORE_PATTERNS\<rparr>,
      s\<lparr>ops := ops s @ [Stat (joinPath root ''.gitignore'')],
        console := console s @ [Log_getIgnoreParser_none root],
        parsersCreated := parsersCreated s + 1\<rparr>)
    \<and> ignoreParserCache (snd (getIgnoreParser w root s)) = ignoreParserCache s
    \<and> (fs_stat w (Suc (length (ops s))) (joinPath root ''.gitignore'') = Inl e' \<longrightarrow>
          fst (getIgnoreParser w root (snd (getIgnoreParser w root s)))
            \<noteq> fst (getIgnoreParser w root s))"
proof -
  let ?s' = "s\<lparr>ops := ops s @ [Stat (joinPath root ''.gitignore'')],
        console := console s @ [Log_getIgnoreParser_none root],
        parsersCreated := parsersCreated s + 1\<rparr>"
  note first = getIgnoreParser_absent [OF assms]
  have second: "fst (getIgnoreParser w root ?s')
      = Inr \<lparr>ident = parsersCreated s + 1, added = DEFAULT_IGNORE_PATTERNS\<rparr>"
    if "fs_stat w (Suc (length (ops s))) (joinPath root ''.gitignore'') = Inl e'"
    using getIgnoreParser_absent [of w ?s' root e'] that by simp
  show ?thesis
    using first second by auto
qed

theorem getIgnoreParser_absent_file_default_only_uncached_witness:
  "fs_stat failing_world (length (ops initial_state)) (joinPath [''r''] ''.gitignore'')
     = Inl (Error ''ENOENT'')
   \<and> fst (getIgnoreParser failing_world [''r''] initial_state)
       = Inr \<lparr>ident = 0, added = [''.git/'', ''.git'']\<rparr>
   \<and> ignoreParserCache (snd (getIgnoreParser failing_world [''r''] initial_state)) = []"
proof -
  have f: "fs_stat failing_world (length (ops initial_state)) (joinPath [''r''] ''.gitignore'')
     = Inl (Error ''ENOENT'')"
    by (simp add: failing_world_def)
  from getIgnoreParser_absent_file_default_only_uncached [OF f] f
  show ?thesis by (simp add: initial_state_def DEFAULT_IGNORE_PATTERNS_def)
qed


section \<open>The token cache\<close>




lemma tokenCache_cacheBinary [simp]: "tokenCache (cacheBinary p b st s) = tokenCache s"
  by (simp add: cacheBinary_def split: option.splits)


declare scanStream.simps [simp del]













section \<open>The empty file map\<close>

lemma generateFileMap_empty: "generateFileMap lc [] workspaceRoot selectedFiles = []"
  by (simp add: generateFileMap_def)

lemma generateFileMapMultiRoot_empty_map: "generateFileMapMultiRoot lc [] selectedFiles = []"
  by (simp add: generateFileMapMultiRoot_def)

lemma generateFileMap_example:
  "generateFileMap compareBytes [[''p'', ''src'', ''index.ts''], [''p'', ''package.json'']]
      [''p''] None
   = ''<file_map>'' @ [CHR 0x0A] @ ''/p'' @ [CHR 0x0A]
     @ connector_mid @ ''src'' @ [CHR 0x0A]
     @ prefix_bar @ connector_last @ ''index.ts *'' @ [CHR 0x0A]
     @ connector_last @ ''package.json *'' @ [CHR 0x0A, CHR 0x0A]
     @ ''(* denotes selected files)'' @ [CHR 0x0A] @ ''</file_map>''"
  by code_simp

text \<open>
  C4. \<open>generateFileMap\<close> returns the empty string for an empty file list, and
  \<open>generateFileMapMultiRoot\<close> does so for a map with no workspace in it
  (\<open>generateFileMap_empty\<close>, \<open>generateFileMapMultiRoot_empty_map\<close>). But for a map whose
  workspaces all have an empty file list, so that there is no file to render, the loop
  skips every workspace and the wrapping markup is still put around the empty body.
\<close>

theorem generateFileMapMultiRoot_no_files_keeps_markup:
  "generateFileMapMultiRoot lc
     [([''workspace2''],
       \<lparr>workspaceName = ''project2'', workspacePath = [''workspace2''], files = []\<rparr>)]
     selectedFiles
   = ''<file_map>'' @ [CHR 0x0A, CHR 0x0A] @ ''</file_map>''"
  by (simp add: generateFileMapMultiRoot_def)


end
